theory Spec2Isabelle
  imports Main
begin

section \<open>Data model of src/App.tsx\<close>

text \<open>
  \<^verbatim>\<open>type Player = 'black' | 'white'; type Cell = Player | null; type Board = Cell[][];\<close>
  A cell is \<open>None\<close> for \<^verbatim>\<open>null\<close>. Coordinates and the board size are JavaScript numbers
  holding integers, modelled as \<open>int\<close>.
\<close>

datatype Player = Black | White

type_synonym Cell = "Player option"

type_synonym Board = "Cell list list"

text \<open>
  What a call can throw: JavaScript's TypeError and RangeError. \<open>SparseWrite\<close> is not an
  exception of the source; it marks a write that the model does not follow (see \<open>setCell\<close>).
\<close>

datatype error = TypeError | RangeError | SparseWrite

text \<open>
  Reading \<^verbatim>\<open>board[r][c]\<close>: when \<open>r\<close> is not an index of the outer array,
  \<^verbatim>\<open>board[r]\<close> is \<^verbatim>\<open>undefined\<close> and indexing it throws a TypeError; when \<open>r\<close> is an
  index and \<open>c\<close> is not an index of that row, the read yields \<^verbatim>\<open>undefined\<close>, a value
  different from \<^verbatim>\<open>null\<close> and from both players.
\<close>

datatype jsval = Undefined | Val Cell

definition at :: "Board \<Rightarrow> int \<Rightarrow> int \<Rightarrow> error + jsval" where
  "at board r c =
     (if 0 \<le> r \<and> r < int (length board) then
        (let line = board ! nat r in
         if 0 \<le> c \<and> c < int (length line) then Inr (Val (line ! nat c)) else Inr Undefined)
      else Inl TypeError)"

text \<open>
  Writing \<^verbatim>\<open>board[r][c] = v\<close>: a TypeError when \<open>r\<close> is not an index of the outer array.
  When \<open>r\<close> is an index and \<open>c\<close> is not an index of the row, JavaScript stores the value
  outside the cells of the row (it lengthens the array or adds a property); a list of
  rows cannot hold that, so the model stops with \<open>SparseWrite\<close>. The lemmas
  \<open>makeMove_not_SparseWrite\<close> and \<open>createInitialBoard_not_SparseWrite\<close> show that no
  write of this program takes that branch, whatever the input.
\<close>

definition setCell :: "Board \<Rightarrow> int \<Rightarrow> int \<Rightarrow> Cell \<Rightarrow> error + Board" where
  "setCell board r c v =
     (if 0 \<le> r \<and> r < int (length board) then
        (let line = board ! nat r in
         if 0 \<le> c \<and> c < int (length line)
         then Inr (board[nat r := line[nat c := v]])
         else Inl SparseWrite)
      else Inl TypeError)"

text \<open>Sequencing of calls that may throw: the first error ends the sequence.\<close>

definition thenE :: "error + 'a \<Rightarrow> ('a \<Rightarrow> error + 'b) \<Rightarrow> error + 'b" where
  "thenE m f = (case m of Inl e \<Rightarrow> Inl e | Inr x \<Rightarrow> f x)"

section \<open>createInitialBoard\<close>

text \<open>
  \<^verbatim>\<open>Array(size)\<close> throws a RangeError for a negative length. \<^verbatim>\<open>center = size / 2\<close> is a
  floating-point division: for an odd size it is not an integer, \<^verbatim>\<open>board[center - 1]\<close>
  is \<^verbatim>\<open>undefined\<close> and the first assignment throws a TypeError. The parameter is named
  \<open>sizeN\<close> here. The upper limit of JavaScript array lengths is not modelled.
\<close>

definition createInitialBoard :: "int \<Rightarrow> error + Board" where
  "createInitialBoard sizeN =
     (if sizeN < 0 then Inl RangeError
      else
        let board = replicate (nat sizeN) (replicate (nat sizeN) None) in
        if odd sizeN then Inl TypeError
        else
          let center = sizeN div 2 in
          thenE (setCell board (center - 1) (center - 1) (Some White)) (\<lambda>b1.
          thenE (setCell b1 (center - 1) center (Some Black)) (\<lambda>b2.
          thenE (setCell b2 center (center - 1) (Some Black)) (\<lambda>b3.
          setCell b3 center center (Some White)))))"

section \<open>isValidMove\<close>

text \<open>The constant \<^verbatim>\<open>directions\<close> and \<^verbatim>\<open>player === 'black' ? 'white' : 'black'\<close>.\<close>

definition directions :: "(int \<times> int) list" where
  "directions = [(-1, -1), (-1, 0), (-1, 1), (0, -1), (0, 1), (1, -1), (1, 0), (1, 1)]"

fun opponent :: "Player \<Rightarrow> Player" where
  "opponent Black = White"
| "opponent White = Black"

text \<open>
  The \<^verbatim>\<open>while\<close> loop of \<open>isValidMove\<close> for one direction, entered at \<open>(r, c)\<close> with the
  current \<open>hasOpponent\<close>. \<open>Some (Inr True)\<close> is the \<^verbatim>\<open>return true\<close>; \<open>Some (Inr False)\<close>
  is leaving the loop (by \<^verbatim>\<open>break\<close> or by the loop condition); \<open>None\<close> stands for a loop
  that never ends, as the step \<open>(0, 0)\<close> would on an opponent cell. Lemma
  \<open>scanValid_returns\<close> shows that the loop ends for every non-zero step.
\<close>

partial_function (option) scanValid ::
  "Board \<Rightarrow> int \<Rightarrow> Player \<Rightarrow> int \<Rightarrow> int \<Rightarrow> int \<Rightarrow> int \<Rightarrow> bool \<Rightarrow> (error + bool) option" where
  "scanValid board boardSize player dr dc r c hasOpponent =
     (if r \<ge> 0 \<and> r < boardSize \<and> c \<ge> 0 \<and> c < boardSize then
        (case at board r c of
           Inl e \<Rightarrow> Some (Inl e)
         | Inr v \<Rightarrow>
             if v = Val (Some (opponent player))
             then scanValid board boardSize player dr dc (r + dr) (c + dc) True
             else if v = Val (Some player) \<and> hasOpponent then Some (Inr True)
             else Some (Inr False))
      else Some (Inr False))"

declare scanValid.simps [code]

text \<open>The \<^verbatim>\<open>for (const [dr, dc] of directions)\<close> loop of \<open>isValidMove\<close>.\<close>

fun validDirs ::
  "Board \<Rightarrow> int \<Rightarrow> int \<Rightarrow> Player \<Rightarrow> int \<Rightarrow> (int \<times> int) list \<Rightarrow> (error + bool) option" where
  "validDirs board row col player boardSize [] = Some (Inr False)"
| "validDirs board row col player boardSize ((dr, dc) # ds) =
     (case scanValid board boardSize player dr dc (row + dr) (col + dc) False of
        None \<Rightarrow> None
      | Some (Inl e) \<Rightarrow> Some (Inl e)
      | Some (Inr found) \<Rightarrow>
          if found then Some (Inr True)
          else validDirs board row col player boardSize ds)"

definition isValidMove :: "Board \<Rightarrow> int \<Rightarrow> int \<Rightarrow> Player \<Rightarrow> int \<Rightarrow> (error + bool) option" where
  "isValidMove board row col player boardSize =
     (case at board row col of
        Inl e \<Rightarrow> Some (Inl e)
      | Inr v \<Rightarrow>
          if v \<noteq> Val None then Some (Inr False)
          else validDirs board row col player boardSize directions)"

section \<open>makeMove\<close>

text \<open>\<^verbatim>\<open>toFlip.forEach(([fr, fc]) => { newBoard[fr][fc] = player; })\<close>\<close>

fun flipAll :: "Board \<Rightarrow> (int \<times> int) list \<Rightarrow> Player \<Rightarrow> error + Board" where
  "flipAll newBoard [] player = Inr newBoard"
| "flipAll newBoard ((fr, fc) # rest) player =
     thenE (setCell newBoard fr fc (Some player)) (\<lambda>b. flipAll b rest player)"

text \<open>
  The \<^verbatim>\<open>while\<close> loop of \<open>makeMove\<close> for one direction, entered at \<open>(r, c)\<close> with the
  current \<open>toFlip\<close>; it returns the board as the loop leaves it.
\<close>

partial_function (option) scanFlip ::
  "Board \<Rightarrow> int \<Rightarrow> Player \<Rightarrow> int \<Rightarrow> int \<Rightarrow> int \<Rightarrow> int \<Rightarrow> (int \<times> int) list
     \<Rightarrow> (error + Board) option" where
  "scanFlip newBoard boardSize player dr dc r c toFlip =
     (if r \<ge> 0 \<and> r < boardSize \<and> c \<ge> 0 \<and> c < boardSize then
        (case at newBoard r c of
           Inl e \<Rightarrow> Some (Inl e)
         | Inr v \<Rightarrow>
             if v = Val (Some (opponent player))
             then scanFlip newBoard boardSize player dr dc (r + dr) (c + dc) (toFlip @ [(r, c)])
             else if v = Val (Some player) \<and> length toFlip > 0
             then Some (flipAll newBoard toFlip player)
             else Some (Inr newBoard))
      else Some (Inr newBoard))"

declare scanFlip.simps [code]

fun flipDirs ::
  "Board \<Rightarrow> int \<Rightarrow> int \<Rightarrow> Player \<Rightarrow> int \<Rightarrow> (int \<times> int) list \<Rightarrow> (error + Board) option" where
  "flipDirs newBoard row col player boardSize [] = Some (Inr newBoard)"
| "flipDirs newBoard row col player boardSize ((dr, dc) # ds) =
     (case scanFlip newBoard boardSize player dr dc (row + dr) (col + dc) [] of
        None \<Rightarrow> None
      | Some (Inl e) \<Rightarrow> Some (Inl e)
      | Some (Inr b) \<Rightarrow> flipDirs b row col player boardSize ds)"

text \<open>
  On values, the copy \<^verbatim>\<open>board.map(row => [...row])\<close> is the board itself; what it
  allocates is modelled in the store section below.
\<close>

definition makeMove :: "Board \<Rightarrow> int \<Rightarrow> int \<Rightarrow> Player \<Rightarrow> int \<Rightarrow> (error + Board) option" where
  "makeMove board row col player boardSize =
     (case isValidMove board row col player boardSize of
        None \<Rightarrow> None
      | Some (Inl e) \<Rightarrow> Some (Inl e)
      | Some (Inr valid) \<Rightarrow>
          if \<not> valid then Some (Inr board)
          else
            (case setCell board row col (Some player) of
               Inl e \<Rightarrow> Some (Inl e)
             | Inr newBoard \<Rightarrow> flipDirs newBoard row col player boardSize directions))"

section \<open>getValidMoves\<close>

text \<open>
  The inner loop \<^verbatim>\<open>for (let col = 0; col < boardSize; col++)\<close>, entered at \<open>col\<close> with the
  moves pushed so far, and the outer loop over the rows.
\<close>

function getValidMovesCols ::
  "Board \<Rightarrow> Player \<Rightarrow> int \<Rightarrow> int \<Rightarrow> int \<Rightarrow> (int \<times> int) list
     \<Rightarrow> (error + (int \<times> int) list) option" where
  "getValidMovesCols board player boardSize row col moves =
     (if col < boardSize then
        (case isValidMove board row col player boardSize of
           None \<Rightarrow> None
         | Some (Inl e) \<Rightarrow> Some (Inl e)
         | Some (Inr valid) \<Rightarrow>
             getValidMovesCols board player boardSize row (col + 1)
               (if valid then moves @ [(row, col)] else moves))
      else Some (Inr moves))"
  by pat_completeness auto
termination
  by (relation "measure (\<lambda>(board, player, boardSize, row, col, moves). nat (boardSize - col))")
    auto

function getValidMovesRows ::
  "Board \<Rightarrow> Player \<Rightarrow> int \<Rightarrow> int \<Rightarrow> (int \<times> int) list \<Rightarrow> (error + (int \<times> int) list) option" where
  "getValidMovesRows board player boardSize row moves =
     (if row < boardSize then
        (case getValidMovesCols board player boardSize row 0 moves of
           None \<Rightarrow> None
         | Some (Inl e) \<Rightarrow> Some (Inl e)
         | Some (Inr moves') \<Rightarrow> getValidMovesRows board player boardSize (row + 1) moves')
      else Some (Inr moves))"
  by pat_completeness auto
termination
  by (relation "measure (\<lambda>(board, player, boardSize, row, moves). nat (boardSize - row))") auto

definition getValidMoves :: "Board \<Rightarrow> Player \<Rightarrow> int \<Rightarrow> (error + (int \<times> int) list) option" where
  "getValidMoves board player boardSize = getValidMovesRows board player boardSize 0 []"

section \<open>countPieces\<close>

text \<open>
  The inner loop over the columns, entered at \<open>col\<close> with the counters so far, and the outer
  loop over the rows. The result \<^verbatim>\<open>{ black, white }\<close> is the pair \<open>(black, white)\<close>.
\<close>

function countPiecesCols ::
  "Board \<Rightarrow> int \<Rightarrow> int \<Rightarrow> int \<Rightarrow> nat \<times> nat \<Rightarrow> error + nat \<times> nat" where
  "countPiecesCols board boardSize row col (black, white) =
     (if col < boardSize then
        (case at board row col of
           Inl e \<Rightarrow> Inl e
         | Inr v \<Rightarrow>
             countPiecesCols board boardSize row (col + 1)
               (if v = Val (Some Black) then (black + 1, white)
                else if v = Val (Some White) then (black, white + 1)
                else (black, white)))
      else Inr (black, white))"
  by pat_completeness auto
termination
  by (relation "measure (\<lambda>(board, boardSize, row, col, acc). nat (boardSize - col))") auto

function countPiecesRows :: "Board \<Rightarrow> int \<Rightarrow> int \<Rightarrow> nat \<times> nat \<Rightarrow> error + nat \<times> nat" where
  "countPiecesRows board boardSize row acc =
     (if row < boardSize then
        (case countPiecesCols board boardSize row 0 acc of
           Inl e \<Rightarrow> Inl e
         | Inr acc' \<Rightarrow> countPiecesRows board boardSize (row + 1) acc')
      else Inr acc)"
  by pat_completeness auto
termination
  by (relation "measure (\<lambda>(board, boardSize, row, acc). nat (boardSize - row))") auto

definition countPieces :: "Board \<Rightarrow> int \<Rightarrow> error + nat \<times> nat" where
  "countPieces board boardSize = countPiecesRows board boardSize 0 (0, 0)"

section \<open>The controller: handleCellClick\<close>

text \<open>
  The React state of \<open>GameScreen\<close>; \<^verbatim>\<open>winner: Player | 'tie' | null\<close>. A call of
  \<open>handleCellClick\<close> returns the state after its \<^verbatim>\<open>set...\<close> calls.
\<close>

datatype Winner = Won Player | Tie

record GameScreen =
  board :: Board
  currentPlayer :: Player
  gameOver :: bool
  winner :: "Winner option"

definition handleCellClick :: "GameScreen \<Rightarrow> int \<Rightarrow> int \<Rightarrow> int \<Rightarrow> (error + GameScreen) option" where
  "handleCellClick st boardSize row col =
     (if gameOver st then Some (Inr st)
      else
        (case isValidMove (board st) row col (currentPlayer st) boardSize of
           None \<Rightarrow> None
         | Some (Inl e) \<Rightarrow> Some (Inl e)
         | Some (Inr valid) \<Rightarrow>
             if \<not> valid then Some (Inr st)
             else
               (case makeMove (board st) row col (currentPlayer st) boardSize of
                  None \<Rightarrow> None
                | Some (Inl e) \<Rightarrow> Some (Inl e)
                | Some (Inr newBoard) \<Rightarrow>
                    let st1 = st\<lparr>board := newBoard\<rparr>;
                        nextPlayer = opponent (currentPlayer st) in
                    (case getValidMoves newBoard nextPlayer boardSize of
                       None \<Rightarrow> None
                     | Some (Inl e) \<Rightarrow> Some (Inl e)
                     | Some (Inr nextPlayerMoves) \<Rightarrow>
                         (case getValidMoves newBoard (currentPlayer st) boardSize of
                            None \<Rightarrow> None
                          | Some (Inl e) \<Rightarrow> Some (Inl e)
                          | Some (Inr currentPlayerMoves) \<Rightarrow>
                              if length nextPlayerMoves > 0
                              then Some (Inr (st1\<lparr>currentPlayer := nextPlayer\<rparr>))
                              else if length currentPlayerMoves > 0
                              then Some (Inr st1)
                              else
                                (case countPieces newBoard boardSize of
                                   Inl e \<Rightarrow> Some (Inl e)
                                 | Inr (black, white) \<Rightarrow>
                                     Some (Inr (st1\<lparr>gameOver := True,
                                       winner :=
                                         Some (if black > white then Won Black
                                               else if white > black then Won White
                                               else Tie)\<rparr>))))))))"

section \<open>makeMove on a store of arrays\<close>

text \<open>
  A \<open>Board\<close> value of the source is a reference to an outer array whose elements are
  references to row arrays. The store holds the row arrays and the outer arrays, each
  addressed by its index; allocation appends. References held by a program are never
  dangling, so the functions below are given valid references only (\<open>validRef\<close>).
\<close>

record Store =
  rowsS :: "Cell list list"
  boardsS :: "nat list list"

text \<open>The board value behind a reference: the rows its outer array points to.\<close>

definition derefS :: "Store \<Rightarrow> nat \<Rightarrow> Board" where
  "derefS s b = map (\<lambda>a. rowsS s ! a) (boardsS s ! b)"

text \<open>
  The reference \<open>b\<close> and the row references of its outer array are allocated.
\<close>

definition validRef :: "Store \<Rightarrow> nat \<Rightarrow> bool" where
  "validRef s b = (b < length (boardsS s) \<and> (\<forall>a \<in> set (boardsS s ! b). a < length (rowsS s)))"

text \<open>
  \<^verbatim>\<open>board.map(row => [...row])\<close>: a new row array for every row, in order, then a new
  outer array holding their references.
\<close>

fun copyRowsS :: "Store \<Rightarrow> nat list \<Rightarrow> Store \<times> nat list" where
  "copyRowsS s [] = (s, [])"
| "copyRowsS s (a # rest) =
     (let new = length (rowsS s);
          s1 = s\<lparr>rowsS := rowsS s @ [rowsS s ! a]\<rparr>;
          (s2, news) = copyRowsS s1 rest
      in (s2, new # news))"

definition copyBoardS :: "Store \<Rightarrow> nat \<Rightarrow> Store \<times> nat" where
  "copyBoardS s b =
     (let (s1, news) = copyRowsS s (boardsS s ! b)
      in (s1\<lparr>boardsS := boardsS s1 @ [news]\<rparr>, length (boardsS s1)))"

text \<open>
  \<^verbatim>\<open>newBoard[r][c] = v\<close> through the reference \<open>b\<close>: the row array that the outer array
  points to at \<open>r\<close> is updated in place, for every board that shares it.
\<close>

definition setCellS :: "Store \<Rightarrow> nat \<Rightarrow> int \<Rightarrow> int \<Rightarrow> Cell \<Rightarrow> error + Store" where
  "setCellS s b r c v =
     (let outer = boardsS s ! b in
      if 0 \<le> r \<and> r < int (length outer) then
        (let a = outer ! nat r; line = rowsS s ! a in
         if 0 \<le> c \<and> c < int (length line)
         then Inr (s\<lparr>rowsS := (rowsS s)[a := line[nat c := v]]\<rparr>)
         else Inl SparseWrite)
      else Inl TypeError)"

fun flipAllS :: "Store \<Rightarrow> nat \<Rightarrow> (int \<times> int) list \<Rightarrow> Player \<Rightarrow> error + Store" where
  "flipAllS s newBoard [] player = Inr s"
| "flipAllS s newBoard ((fr, fc) # rest) player =
     thenE (setCellS s newBoard fr fc (Some player)) (\<lambda>s'. flipAllS s' newBoard rest player)"

text \<open>
  The loops of \<open>makeMove\<close> again, with \<open>newBoard\<close> a reference: a read of
  \<^verbatim>\<open>newBoard[r][c]\<close> is \<open>at\<close> on the value behind the reference.
\<close>

partial_function (option) scanFlipS ::
  "Store \<Rightarrow> nat \<Rightarrow> int \<Rightarrow> Player \<Rightarrow> int \<Rightarrow> int \<Rightarrow> int \<Rightarrow> int \<Rightarrow> (int \<times> int) list
     \<Rightarrow> (error + Store) option" where
  "scanFlipS s newBoard boardSize player dr dc r c toFlip =
     (if r \<ge> 0 \<and> r < boardSize \<and> c \<ge> 0 \<and> c < boardSize then
        (case at (derefS s newBoard) r c of
           Inl e \<Rightarrow> Some (Inl e)
         | Inr v \<Rightarrow>
             if v = Val (Some (opponent player))
             then scanFlipS s newBoard boardSize player dr dc (r + dr) (c + dc) (toFlip @ [(r, c)])
             else if v = Val (Some player) \<and> length toFlip > 0
             then Some (flipAllS s newBoard toFlip player)
             else Some (Inr s))
      else Some (Inr s))"

declare scanFlipS.simps [code]

fun flipDirsS ::
  "Store \<Rightarrow> nat \<Rightarrow> int \<Rightarrow> int \<Rightarrow> Player \<Rightarrow> int \<Rightarrow> (int \<times> int) list \<Rightarrow> (error + Store) option" where
  "flipDirsS s newBoard row col player boardSize [] = Some (Inr s)"
| "flipDirsS s newBoard row col player boardSize ((dr, dc) # ds) =
     (case scanFlipS s newBoard boardSize player dr dc (row + dr) (col + dc) [] of
        None \<Rightarrow> None
      | Some (Inl e) \<Rightarrow> Some (Inl e)
      | Some (Inr s') \<Rightarrow> flipDirsS s' newBoard row col player boardSize ds)"

text \<open>
  \<open>makeMove\<close> given the store and the reference \<open>b\<close> of its argument; it returns the
  store afterwards and the reference it returns. \<open>isValidMove\<close> only reads, so it is
  applied to the value behind \<open>b\<close>.
\<close>

definition makeMoveS ::
  "Store \<Rightarrow> nat \<Rightarrow> int \<Rightarrow> int \<Rightarrow> Player \<Rightarrow> int \<Rightarrow> (error + Store \<times> nat) option" where
  "makeMoveS s b row col player boardSize =
     (case isValidMove (derefS s b) row col player boardSize of
        None \<Rightarrow> None
      | Some (Inl e) \<Rightarrow> Some (Inl e)
      | Some (Inr valid) \<Rightarrow>
          if \<not> valid then Some (Inr (s, b))
          else
            (let (s1, newBoard) = copyBoardS s b in
             case setCellS s1 newBoard row col (Some player) of
               Inl e \<Rightarrow> Some (Inl e)
             | Inr s2 \<Rightarrow>
                 (case flipDirsS s2 newBoard row col player boardSize directions of
                    None \<Rightarrow> None
                  | Some (Inl e) \<Rightarrow> Some (Inl e)
                  | Some (Inr s3) \<Rightarrow> Some (Inr (s3, newBoard)))))"

section \<open>Notions used to state the properties\<close>

text \<open>
  A well-formed board of side \<open>N\<close>: \<open>N\<close> rows of \<open>N\<close> cells each.
\<close>

definition wfBoard :: "Board \<Rightarrow> nat \<Rightarrow> bool" where
  "wfBoard B N = (length B = N \<and> (\<forall>line \<in> set B. length line = N))"

text \<open>
  The coordinate pair \<open>(r, c)\<close> lies on a board of side \<open>N\<close>.
\<close>

definition onBoard :: "nat \<Rightarrow> int \<Rightarrow> int \<Rightarrow> bool" where
  "onBoard N r c = (0 \<le> r \<and> r < int N \<and> 0 \<le> c \<and> c < int N)"

text \<open>
  The cell at \<open>(r, c)\<close>; it is used for coordinates on the board only.
\<close>

definition cellOf :: "Board \<Rightarrow> int \<Rightarrow> int \<Rightarrow> Cell" where
  "cellOf B r c = B ! nat r ! nat c"

text \<open>
  The board with the cell at \<open>(r, c)\<close> replaced.
\<close>

definition putCell :: "Board \<Rightarrow> int \<Rightarrow> int \<Rightarrow> Cell \<Rightarrow> Board" where
  "putCell B r c v = B[nat r := (B ! nat r)[nat c := v]]"

text \<open>
  The number of cells of the board that hold \<open>v\<close>.
\<close>

definition cellCount :: "Cell \<Rightarrow> Board \<Rightarrow> nat" where
  "cellCount v B = length (filter (\<lambda>x. x = v) (concat B))"

text \<open>
  The starting position as the specification words it: the top-left and bottom-right
  centre cells are white (light), the top-right and bottom-left centre cells are black
  (dark), every other cell is empty.
\<close>

definition initialCell :: "nat \<Rightarrow> int \<Rightarrow> int \<Rightarrow> Cell" where
  "initialCell N r c =
     (let h = int N div 2 in
      if (r = h - 1 \<and> c = h - 1) \<or> (r = h \<and> c = h) then Some White
      else if (r = h - 1 \<and> c = h) \<or> (r = h \<and> c = h - 1) then Some Black
      else None)"

text \<open>
  The capture pattern of one direction, read from the cell \<open>(r, c)\<close> outward by steps of
  \<open>(dr, dc)\<close>: exactly \<open>k\<close> consecutive opponent cells on the board, followed at once by
  a cell of the player on the board. Lemma \<open>runTo_iff\<close> gives the same with quantifiers.
\<close>

fun runTo :: "Board \<Rightarrow> nat \<Rightarrow> Player \<Rightarrow> int \<Rightarrow> int \<Rightarrow> int \<Rightarrow> int \<Rightarrow> nat \<Rightarrow> bool" where
  "runTo B N player dr dc r c 0 = (onBoard N r c \<and> cellOf B r c = Some player)"
| "runTo B N player dr dc r c (Suc k) =
     (onBoard N r c \<and> cellOf B r c = Some (opponent player) \<and>
      runTo B N player dr dc (r + dr) (c + dc) k)"

text \<open>
  Direction \<open>d\<close> captures for a move at \<open>(row, col)\<close>: starting next to the move cell
  there is a run of one or more opponent cells followed at once by a cell of the player.
  A run on a board of side \<open>N\<close> has fewer than \<open>N\<close> cells (lemma \<open>runTo_bound\<close>), so the
  bound on \<open>k\<close> excludes nothing.
\<close>

definition capturesDir :: "Board \<Rightarrow> nat \<Rightarrow> Player \<Rightarrow> int \<Rightarrow> int \<Rightarrow> int \<times> int \<Rightarrow> bool" where
  "capturesDir B N player row col d =
     (\<exists>k \<in> {1..<N}. runTo B N player (fst d) (snd d) (row + fst d) (col + snd d) k)"

text \<open>
  The rule of a legal move: the cell is empty and some direction captures.
\<close>

definition legalMove :: "Board \<Rightarrow> nat \<Rightarrow> Player \<Rightarrow> int \<Rightarrow> int \<Rightarrow> bool" where
  "legalMove B N player row col =
     (cellOf B row col = None \<and> (\<exists>d \<in> set directions. capturesDir B N player row col d))"

text \<open>
  The cell \<open>(r, c)\<close> lies in the run of opponent cells that direction \<open>d\<close> captures for a
  move at \<open>(row, col)\<close>.
\<close>

definition flippedBy :: "Board \<Rightarrow> nat \<Rightarrow> Player \<Rightarrow> int \<Rightarrow> int \<Rightarrow> int \<times> int \<Rightarrow> int \<Rightarrow> int \<Rightarrow> bool" where
  "flippedBy B N player row col d r c =
     (\<exists>k \<in> {1..<N}. runTo B N player (fst d) (snd d) (row + fst d) (col + snd d) k \<and>
        (\<exists>j \<in> {1..k}. r = row + int j * fst d \<and> c = col + int j * snd d))"

text \<open>
  The cells of a board of side \<open>N\<close>, rows ascending and columns ascending within a row.
\<close>

definition allCells :: "nat \<Rightarrow> (int \<times> int) list" where
  "allCells N = List.product [0..int N - 1] [0..int N - 1]"

text \<open>
  \<open>isValidMove\<close> returns true at the coordinate pair.
\<close>

definition isLegal :: "Board \<Rightarrow> Player \<Rightarrow> int \<Rightarrow> int \<times> int \<Rightarrow> bool" where
  "isLegal B player boardSize rc = (isValidMove B (fst rc) (snd rc) player boardSize = Some (Inr True))"

text \<open>Row-major order on coordinate pairs: row first, then column.\<close>

definition rowMajor :: "int \<times> int \<Rightarrow> int \<times> int \<Rightarrow> bool" where
  "rowMajor a b = (fst a < fst b \<or> (fst a = fst b \<and> snd a < snd b))"

text \<open>The player has a legal move somewhere on the board.\<close>

definition hasLegalMove :: "Board \<Rightarrow> nat \<Rightarrow> Player \<Rightarrow> bool" where
  "hasLegalMove B N player = (\<exists>rc \<in> set (allCells N). isLegal B player (int N) rc)"

text \<open>The winner by piece counts \<open>(black, white)\<close>.\<close>

definition winnerOf :: "nat \<times> nat \<Rightarrow> Winner" where
  "winnerOf bw = (if fst bw > snd bw then Won Black else if snd bw > fst bw then Won White else Tie)"

section \<open>Notions used in the proofs\<close>

text \<open>
  A bound on the iterations a scan still makes from \<open>(r, c)\<close> with a non-zero step: the
  distance to the edge it walks towards.
\<close>

definition stepsLeft :: "nat \<Rightarrow> int \<Rightarrow> int \<Rightarrow> int \<Rightarrow> int \<Rightarrow> nat" where
  "stepsLeft N dr dc r c =
     (if 0 < dr then nat (int N - r) else if dr < 0 then nat (r + 1)
      else if 0 < dc then nat (int N - c) else nat (c + 1))"

text \<open>
  A step to one of the 8 neighbours.
\<close>

definition unitDir :: "int \<times> int \<Rightarrow> bool" where
  "unitDir d = (fst d \<in> {-1, 0, 1} \<and> snd d \<in> {-1, 0, 1} \<and> (fst d \<noteq> 0 \<or> snd d \<noteq> 0))"

text \<open>
  The first \<open>k\<close> cells of the ray from \<open>(r, c)\<close> by steps of \<open>(dr, dc)\<close>.
\<close>

fun rayCells :: "int \<Rightarrow> int \<Rightarrow> int \<Rightarrow> int \<Rightarrow> nat \<Rightarrow> (int \<times> int) list" where
  "rayCells r c dr dc 0 = []"
| "rayCells r c dr dc (Suc k) = (r, c) # rayCells (r + dr) (c + dc) dr dc k"

text \<open>
  The board with every listed cell replaced by \<open>v\<close>.
\<close>

definition paintCells :: "Board \<Rightarrow> (int \<times> int) list \<Rightarrow> Cell \<Rightarrow> Board" where
  "paintCells B ps v = foldl (\<lambda>b rc. putCell b (fst rc) (snd rc) v) B ps"

text \<open>\<open>(r, c)\<close> is a cell of the board, whatever its shape.\<close>

definition cellValid :: "Board \<Rightarrow> int \<Rightarrow> int \<Rightarrow> bool" where
  "cellValid B r c =
     (0 \<le> r \<and> r < int (length B) \<and> 0 \<le> c \<and> c < int (length (B ! nat r)))"

text \<open>
  \<open>freshRef n s b\<close>: the rows of board \<open>b\<close> are distinct row arrays allocated at or after
  address \<open>n\<close>. \<open>frameS n s s'\<close>: from \<open>s\<close> to \<open>s'\<close> no array was allocated, no outer array
  changed and no row array below address \<open>n\<close> changed.
\<close>

definition freshRef :: "nat \<Rightarrow> Store \<Rightarrow> nat \<Rightarrow> bool" where
  "freshRef n s b =
     (b < length (boardsS s) \<and> distinct (boardsS s ! b) \<and>
      (\<forall>a \<in> set (boardsS s ! b). n \<le> a \<and> a < length (rowsS s)))"

definition frameS :: "nat \<Rightarrow> Store \<Rightarrow> Store \<Rightarrow> bool" where
  "frameS n s s' =
     (boardsS s' = boardsS s \<and> length (rowsS s') = length (rowsS s) \<and>
      take n (rowsS s') = take n (rowsS s))"

definition simRes :: "nat \<Rightarrow> Store \<Rightarrow> nat \<Rightarrow> (error + Store) option \<Rightarrow> (error + Board) option \<Rightarrow> bool" where
  "simRes n s b x y =
     (case x of
        None \<Rightarrow> y = None
      | Some (Inl e) \<Rightarrow> y = Some (Inl e)
      | Some (Inr s') \<Rightarrow> y = Some (Inr (derefS s' b)) \<and> frameS n s s')"

section \<open>Concrete positions\<close>

text \<open>The starting position of side 4, used as a concrete input.\<close>

definition start4 :: Board where
  "start4 = [[None, None, None, None],
             [None, Some White, Some Black, None],
             [None, Some Black, Some White, None],
             [None, None, None, None]]"

text \<open>
  A position of side 3 where black's move at \<open>(0, 0)\<close> fills the board.
\<close>

definition lastMove3 :: Board where
  "lastMove3 = [[None, Some White, Some Black],
                [Some Black, Some Black, Some Black],
                [Some Black, Some Black, Some Black]]"

text \<open>
  A position of side 4 where, after black's move at \<open>(0, 0)\<close>, white cannot move and
  black can.
\<close>

definition skip4 :: Board where
  "skip4 = [[None, Some White, Some Black, None],
            [None, None, None, None],
            [Some Black, Some White, None, None],
            [None, None, None, None]]"

text \<open>A store holding \<open>start4\<close> with two references to it: boards 0 and 1 share their rows.\<close>

definition store4 :: Store where
  "store4 = \<lparr>rowsS = start4, boardsS = [[0, 1, 2, 3], [0, 1, 2, 3]]\<rparr>"

section \<open>Reading and writing cells of a well-formed board\<close>

lemma wfBoard_row: "wfBoard B N \<Longrightarrow> 0 \<le> r \<Longrightarrow> r < int N \<Longrightarrow> length (B ! nat r) = N"
  by (simp add: wfBoard_def)

lemma at_onBoard: "wfBoard B N \<Longrightarrow> onBoard N r c \<Longrightarrow> at B r c = Inr (Val (cellOf B r c))"
  using wfBoard_row [of B N r] by (simp add: at_def onBoard_def cellOf_def wfBoard_def Let_def)

lemma at_col_off:
  "wfBoard B N \<Longrightarrow> 0 \<le> r \<Longrightarrow> r < int N \<Longrightarrow> \<not> (0 \<le> c \<and> c < int N) \<Longrightarrow> at B r c = Inr Undefined"
  by (auto simp add: at_def wfBoard_def Let_def)

lemma at_row_off: "wfBoard B N \<Longrightarrow> \<not> (0 \<le> r \<and> r < int N) \<Longrightarrow> at B r c = Inl TypeError"
  by (auto simp add: at_def wfBoard_def)

lemma setCell_onBoard:
  "wfBoard B N \<Longrightarrow> onBoard N r c \<Longrightarrow> setCell B r c v = Inr (putCell B r c v)"
  using wfBoard_row [of B N r] by (simp add: setCell_def onBoard_def putCell_def wfBoard_def Let_def)

lemma wfBoard_putCell: "wfBoard B N \<Longrightarrow> wfBoard (putCell B r c v) N"
proof (cases "nat r < length B")
  case True
  assume "wfBoard B N"
  with True show ?thesis
    by (auto simp add: wfBoard_def putCell_def dest!: set_update_subset_insert [THEN subsetD])
next
  case False
  assume "wfBoard B N"
  with False show ?thesis by (simp add: putCell_def list_update_beyond)
qed

lemma cellOf_putCell:
  "wfBoard B N \<Longrightarrow> onBoard N r c \<Longrightarrow> onBoard N r' c' \<Longrightarrow>
   cellOf (putCell B r c v) r' c' = (if r' = r \<and> c' = c then v else cellOf B r' c')"
  by (auto simp add: wfBoard_def putCell_def cellOf_def onBoard_def nth_list_update)

lemma wfBoard_replicate: "wfBoard (replicate N (replicate N v)) N"
  by (simp add: wfBoard_def)

lemma cellOf_replicate: "onBoard N r c \<Longrightarrow> cellOf (replicate N (replicate N v)) r c = v"
proof -
  assume "onBoard N r c"
  then have "nat r < N" "nat c < N" by (auto simp add: onBoard_def)
  then show ?thesis by (simp add: cellOf_def)
qed

lemma wfBoard_start4: "wfBoard start4 4"
  by (simp add: start4_def wfBoard_def)

section \<open>countPieces counts the cells of each player\<close>

lemma countPiecesCols_drop:
  "wfBoard B N \<Longrightarrow> 0 \<le> row \<Longrightarrow> row < int N \<Longrightarrow> 0 \<le> col \<Longrightarrow> col \<le> int N \<Longrightarrow>
   countPiecesCols B (int N) row col (b, w) =
     Inr (b + length (filter (\<lambda>x. x = Some Black) (drop (nat col) (B ! nat row))),
          w + length (filter (\<lambda>x. x = Some White) (drop (nat col) (B ! nat row))))"
proof (induction B "int N" row col "(b, w)" arbitrary: b w rule: countPiecesCols.induct)
  case (1 B row col b w)
  show ?case
  proof (cases "col < int N")
    case False
    with 1 have "col = int N" by simp
    moreover have "length (B ! nat row) = N" using 1 by (simp add: wfBoard_row)
    ultimately show ?thesis by simp
  next
    case True
    have len: "length (B ! nat row) = N" using 1 by (simp add: wfBoard_row)
    have ob: "onBoard N row col" using 1 True by (simp add: onBoard_def)
    have rd: "at B row col = Inr (Val (cellOf B row col))"
      using 1 ob by (simp add: at_onBoard)
    have dr: "drop (nat col) (B ! nat row) = cellOf B row col # drop (nat (col + 1)) (B ! nat row)"
      using True 1 len by (simp add: cellOf_def Cons_nth_drop_Suc nat_add_distrib)
    show ?thesis
      using True 1 rd dr
      by (subst countPiecesCols.simps) (auto simp add: )
  qed
qed

lemma countPiecesRows_drop:
  "wfBoard B N \<Longrightarrow> 0 \<le> row \<Longrightarrow> row \<le> int N \<Longrightarrow>
   countPiecesRows B (int N) row (b, w) =
     Inr (b + cellCount (Some Black) (drop (nat row) B),
          w + cellCount (Some White) (drop (nat row) B))"
proof (induction B "int N" row "(b, w)" arbitrary: b w rule: countPiecesRows.induct)
  case (1 B row b w)
  show ?case
  proof (cases "row < int N")
    case False
    with 1 have "row = int N" by simp
    moreover have "length B = N" using 1 by (simp add: wfBoard_def)
    ultimately show ?thesis by (simp add: cellCount_def)
  next
    case True
    have len: "length B = N" using 1 by (simp add: wfBoard_def)
    have dr: "drop (nat row) B = B ! nat row # drop (nat (row + 1)) B"
      using True 1 len by (simp add: Cons_nth_drop_Suc nat_add_distrib)
    have cols: "countPiecesCols B (int N) row 0 (b, w) =
       Inr (b + length (filter (\<lambda>x. x = Some Black) (B ! nat row)),
            w + length (filter (\<lambda>x. x = Some White) (B ! nat row)))"
      using countPiecesCols_drop [of B N row 0 b w] 1 True by simp
    show ?thesis
      using True 1 cols dr
      by (subst countPiecesRows.simps) (simp add: cellCount_def)
  qed
qed

lemma countPieces_cellCount:
  "wfBoard B N \<Longrightarrow> countPieces B (int N) = Inr (cellCount (Some Black) B, cellCount (Some White) B)"
  using countPiecesRows_drop [of B N 0 0 0] by (simp add: countPieces_def)

lemma length_concat_wfBoard: "wfBoard B N \<Longrightarrow> length (concat B) = N * N"
proof -
  assume wf: "wfBoard B N"
  then have "map length B = replicate N N"
    by (auto simp add: wfBoard_def intro!: replicate_eqI)
  then show ?thesis by (simp add: length_concat sum_list_replicate)
qed

lemma cellCount_total:
  "cellCount (Some Black) B + cellCount (Some White) B + cellCount None B = length (concat B)"
proof -
  have "length (filter (\<lambda>x. x = Some Black) xs) + length (filter (\<lambda>x. x = Some White) xs)
        + length (filter (\<lambda>x. x = None) xs) = length xs" for xs :: "Cell list"
  proof (induction xs)
    case Nil
    then show ?case by simp
  next
    case (Cons a xs)
    then show ?case by (cases a rule: option.exhaust; cases "the a") auto
  qed
  then show ?thesis by (simp add: cellCount_def)
qed

text \<open>
  Claim C6. On every well-formed board of side \<open>N\<close>, \<open>countPieces\<close> returns the number
  of black cells and the number of white cells (empty cells are in neither count), and
  the two counts plus the number of empty cells make \<open>N * N\<close>.
\<close>

theorem countPieces_counts:
  "wfBoard B N \<Longrightarrow>
   countPieces B (int N) = Inr (cellCount (Some Black) B, cellCount (Some White) B) \<and>
   cellCount (Some Black) B + cellCount (Some White) B + cellCount None B = N * N"
  using countPieces_cellCount [of B N] cellCount_total [of B] length_concat_wfBoard [of B N]
  by simp

theorem countPieces_counts_witness:
  "wfBoard [[Some White, Some Black], [None, Some White]] 2 \<and>
   countPieces [[Some White, Some Black], [None, Some White]] 2 = Inr (1, 2) \<and>
   cellCount None [[Some White, Some Black], [None, Some White]] = 1"
proof -
  have wf: "wfBoard [[Some White, Some Black], [None, Some White]] 2"
    by (simp add: wfBoard_def)
  from countPieces_counts [OF wf] wf show ?thesis
    by (simp add: cellCount_def)
qed

section \<open>createInitialBoard sets the four centre cells\<close>

lemma createInitialBoard_even:
  assumes ev: "even N" and ge: "2 \<le> N"
  shows "\<exists>B. createInitialBoard (int N) = Inr B \<and> wfBoard B N \<and>
             (\<forall>r c. onBoard N r c \<longrightarrow> cellOf B r c = initialCell N r c)"
proof -
  define h where "h = int N div 2"
  define B0 :: Board where "B0 = replicate N (replicate N None)"
  define B1 where "B1 = putCell B0 (h - 1) (h - 1) (Some White)"
  define B2 where "B2 = putCell B1 (h - 1) h (Some Black)"
  define B3 where "B3 = putCell B2 h (h - 1) (Some Black)"
  define B4 where "B4 = putCell B3 h h (Some White)"
  have hb: "1 \<le> h" "h < int N" using ev ge unfolding h_def by presburger+
  have on: "onBoard N (h - 1) (h - 1)" "onBoard N (h - 1) h" "onBoard N h (h - 1)" "onBoard N h h"
    using hb by (simp_all add: onBoard_def)
  have wf0: "wfBoard B0 N" by (simp add: B0_def wfBoard_replicate)
  have wf1: "wfBoard B1 N" using wf0 by (simp add: B1_def wfBoard_putCell)
  have wf2: "wfBoard B2 N" using wf1 by (simp add: B2_def wfBoard_putCell)
  have wf3: "wfBoard B3 N" using wf2 by (simp add: B3_def wfBoard_putCell)
  have wf4: "wfBoard B4 N" using wf3 by (simp add: B4_def wfBoard_putCell)
  have s1: "setCell B0 (h - 1) (h - 1) (Some White) = Inr B1"
    using wf0 on by (simp add: setCell_onBoard B1_def)
  have s2: "setCell B1 (h - 1) h (Some Black) = Inr B2"
    using wf1 on by (simp add: setCell_onBoard B2_def)
  have s3: "setCell B2 h (h - 1) (Some Black) = Inr B3"
    using wf2 on by (simp add: setCell_onBoard B3_def)
  have s4: "setCell B3 h h (Some White) = Inr B4"
    using wf3 on by (simp add: setCell_onBoard B4_def)
  have run: "createInitialBoard (int N) = Inr B4"
    using ev s1 s2 s3 s4
    by (simp add: createInitialBoard_def Let_def thenE_def h_def [symmetric] B0_def [symmetric])
  have cells: "cellOf B4 r c = initialCell N r c" if ob: "onBoard N r c" for r c
  proof -
    have c0: "cellOf B0 r c = None" using ob by (simp add: B0_def cellOf_replicate)
    have c1: "cellOf B1 r c = (if r = h - 1 \<and> c = h - 1 then Some White else None)"
      unfolding B1_def using cellOf_putCell [OF wf0 on(1) ob] c0 by (auto split: if_splits)
    have c2: "cellOf B2 r c =
       (if r = h - 1 \<and> c = h then Some Black
        else if r = h - 1 \<and> c = h - 1 then Some White else None)"
      unfolding B2_def using cellOf_putCell [OF wf1 on(2) ob] c1 by (auto split: if_splits)
    have c3: "cellOf B3 r c =
       (if r = h \<and> c = h - 1 then Some Black
        else if r = h - 1 \<and> c = h then Some Black
        else if r = h - 1 \<and> c = h - 1 then Some White else None)"
      unfolding B3_def using cellOf_putCell [OF wf2 on(3) ob] c2 by (auto split: if_splits)
    have "cellOf B4 r c =
       (if r = h \<and> c = h then Some White
        else if r = h \<and> c = h - 1 then Some Black
        else if r = h - 1 \<and> c = h then Some Black
        else if r = h - 1 \<and> c = h - 1 then Some White
        else None)"
      unfolding B4_def using cellOf_putCell [OF wf3 on(4) ob] c3 by (auto split: if_splits)
    then show ?thesis by (auto simp add: initialCell_def h_def Let_def)
  qed
  show ?thesis using run wf4 cells by blast
qed

lemma createInitialBoard_not_SparseWrite: "createInitialBoard n \<noteq> Inl SparseWrite"
proof (cases "0 \<le> n \<and> even n \<and> n \<noteq> 0")
  case True
  then have "even (nat n)" "2 \<le> nat n" by (auto simp add: even_nat_iff)
  from createInitialBoard_even [OF this] True show ?thesis by auto
next
  case False
  then consider "n < 0" | "0 \<le> n" "odd n" | "n = 0" by linarith
  then show ?thesis
  proof cases
    case 1 then show ?thesis by (simp add: createInitialBoard_def)
  next
    case 2 then show ?thesis by (simp add: createInitialBoard_def Let_def)
  next
    case 3 then show ?thesis by (simp add: createInitialBoard_def Let_def setCell_def thenE_def)
  qed
qed




section \<open>The scan of isValidMove ends and finds the capture pattern\<close>

lemma stepsLeft_less:
  "onBoard N r c \<Longrightarrow> dr \<noteq> 0 \<or> dc \<noteq> 0 \<Longrightarrow>
   stepsLeft N dr dc (r + dr) (c + dc) < stepsLeft N dr dc r c"
  by (auto simp add: onBoard_def stepsLeft_def)

lemma opponent_neq [simp]: "opponent p \<noteq> p" "p \<noteq> opponent p"
  by (cases p; simp)+

lemma runTo_onBoard: "runTo B N p dr dc r c k \<Longrightarrow> onBoard N r c"
  by (cases k) simp_all

lemma runTo_iff:
  "runTo B N p dr dc r c k \<longleftrightarrow>
     (\<forall>i < k. onBoard N (r + int i * dr) (c + int i * dc) \<and>
              cellOf B (r + int i * dr) (c + int i * dc) = Some (opponent p)) \<and>
     onBoard N (r + int k * dr) (c + int k * dc) \<and>
     cellOf B (r + int k * dr) (c + int k * dc) = Some p"
proof (induction k arbitrary: r c)
  case 0
  then show ?case by simp
next
  case (Suc k)
  have shift: "(\<forall>i < Suc k. Q i) \<longleftrightarrow> Q 0 \<and> (\<forall>i < k. Q (Suc i))" for Q
    by (metis less_Suc_eq_0_disj Suc_less_eq zero_less_Suc)
  have e: "r + dr + int i * dr = r + int (Suc i) * dr" "c + dc + int i * dc = c + int (Suc i) * dc"
    for i by (simp_all add: algebra_simps)
  show ?case
    unfolding runTo.simps Suc.IH e
    by (subst shift) auto
qed

lemma scanValid_off:
  "\<not> onBoard N r c \<Longrightarrow> scanValid B (int N) p dr dc r c h = Some (Inr False)"
  by (subst scanValid.simps) (auto simp add: onBoard_def)

lemma scanValid_on:
  "wfBoard B N \<Longrightarrow> onBoard N r c \<Longrightarrow>
   scanValid B (int N) p dr dc r c h =
     (if cellOf B r c = Some (opponent p) then scanValid B (int N) p dr dc (r + dr) (c + dc) True
      else if cellOf B r c = Some p \<and> h then Some (Inr True)
      else Some (Inr False))"
  by (subst scanValid.simps) (auto simp add: at_onBoard, auto simp add: onBoard_def)

lemma runTo_opp:
  "cellOf B r c = Some (opponent p) \<Longrightarrow> onBoard N r c \<Longrightarrow>
   (\<exists>k. runTo B N p dr dc r c k \<and> (h \<or> 0 < k)) = (\<exists>k. runTo B N p dr dc (r + dr) (c + dc) k)"
proof
  assume a: "cellOf B r c = Some (opponent p)" "onBoard N r c"
  assume "\<exists>k. runTo B N p dr dc r c k \<and> (h \<or> 0 < k)"
  then obtain k where k: "runTo B N p dr dc r c k" by blast
  with a show "\<exists>k. runTo B N p dr dc (r + dr) (c + dc) k"
    by (cases k) auto
next
  assume a: "cellOf B r c = Some (opponent p)" "onBoard N r c"
  assume "\<exists>k. runTo B N p dr dc (r + dr) (c + dc) k"
  then obtain k where "runTo B N p dr dc (r + dr) (c + dc) k" by blast
  with a have "runTo B N p dr dc r c (Suc k) \<and> (h \<or> 0 < Suc k)" by simp
  then show "\<exists>k. runTo B N p dr dc r c k \<and> (h \<or> 0 < k)" by blast
qed

lemma runTo_own:
  "cellOf B r c = Some p \<Longrightarrow> onBoard N r c \<Longrightarrow>
   (\<exists>k. runTo B N p dr dc r c k \<and> (h \<or> 0 < k)) = h"
proof
  assume a: "cellOf B r c = Some p" "onBoard N r c"
  assume "\<exists>k. runTo B N p dr dc r c k \<and> (h \<or> 0 < k)"
  then obtain k where k: "runTo B N p dr dc r c k" "h \<or> 0 < k" by blast
  with a show h by (cases k) auto
next
  assume a: "cellOf B r c = Some p" "onBoard N r c"
  assume h
  with a have "runTo B N p dr dc r c 0 \<and> (h \<or> (0::nat) < 0)" by simp
  then show "\<exists>k. runTo B N p dr dc r c k \<and> (h \<or> 0 < k)" by blast
qed

lemma runTo_other:
  "cellOf B r c \<noteq> Some p \<Longrightarrow> cellOf B r c \<noteq> Some (opponent p) \<Longrightarrow> \<not> runTo B N p dr dc r c k"
  by (cases k) auto

lemma scanValid_run:
  assumes wf: "wfBoard B N" and nz: "dr \<noteq> 0 \<or> dc \<noteq> 0"
  shows "scanValid B (int N) p dr dc r c h =
           Some (Inr (\<exists>k. runTo B N p dr dc r c k \<and> (h \<or> 0 < k)))"
proof (induction "stepsLeft N dr dc r c" arbitrary: r c h rule: less_induct)
  case less
  show ?case
  proof (cases "onBoard N r c")
    case False
    then have "\<not> runTo B N p dr dc r c k" for k using runTo_onBoard by blast
    with False show ?thesis by (simp add: scanValid_off)
  next
    case True
    note ih = less [OF stepsLeft_less [OF True nz]]
    consider (opp) "cellOf B r c = Some (opponent p)" | (own) "cellOf B r c = Some p"
      | (other) "cellOf B r c \<noteq> Some p" "cellOf B r c \<noteq> Some (opponent p)" by blast
    then show ?thesis
    proof cases
      case opp
      then show ?thesis
        using True wf ih [of True] runTo_opp [OF opp True, of dr dc h] by (simp add: scanValid_on)
    next
      case own
      then show ?thesis
        using True wf runTo_own [OF own True, of dr dc h] by (simp add: scanValid_on)
    next
      case other
      then show ?thesis
        using True wf runTo_other [OF other] by (simp add: scanValid_on)
    qed
  qed
qed

lemma runTo_end: "runTo B N p dr dc r c k \<Longrightarrow> onBoard N (r + int k * dr) (c + int k * dc)"
proof (induction k arbitrary: r c)
  case 0
  then show ?case by simp
next
  case (Suc k)
  then have "onBoard N (r + dr + int k * dr) (c + dc + int k * dc)" by simp
  then show ?case by (simp add: algebra_simps)
qed

lemma span_bound:
  fixes x d :: int
  assumes "0 \<le> x" "x < int N" "0 \<le> x + int k * d" "x + int k * d < int N" "d \<noteq> 0"
  shows "k < N"
proof (cases "0 < d")
  case True
  then have "int k * 1 \<le> int k * d" by (intro mult_left_mono) auto
  with assms show ?thesis by linarith
next
  case False
  with assms have "d \<le> - 1" by simp
  then have "int k * d \<le> int k * (- 1)" by (intro mult_left_mono) auto
  with assms show ?thesis by linarith
qed

lemma runTo_bound:
  assumes run: "runTo B N p dr dc r c k" and nz: "dr \<noteq> 0 \<or> dc \<noteq> 0"
  shows "k < N"
proof -
  from runTo_onBoard [OF run] runTo_end [OF run]
  have b: "0 \<le> r" "r < int N" "0 \<le> r + int k * dr" "r + int k * dr < int N"
    "0 \<le> c" "c < int N" "0 \<le> c + int k * dc" "c + int k * dc < int N"
    by (simp_all add: onBoard_def)
  from nz show ?thesis
  proof
    assume "dr \<noteq> 0" with b show ?thesis using span_bound [of r N k dr] by simp
  next
    assume "dc \<noteq> 0" with b show ?thesis using span_bound [of c N k dc] by simp
  qed
qed

lemma scanValid_capturesDir:
  assumes wf: "wfBoard B N" and nz: "fst d \<noteq> 0 \<or> snd d \<noteq> 0"
  shows "scanValid B (int N) p (fst d) (snd d) (row + fst d) (col + snd d) False =
           Some (Inr (capturesDir B N p row col d))"
proof -
  have "(\<exists>k. runTo B N p (fst d) (snd d) (row + fst d) (col + snd d) k \<and> (False \<or> 0 < k)) =
        capturesDir B N p row col d"
    unfolding capturesDir_def using runTo_bound [OF _ nz]
    by (auto simp add: Suc_le_eq)
  with scanValid_run [OF wf nz] show ?thesis by simp
qed

lemma validDirs_captures:
  assumes wf: "wfBoard B N"
  shows "(\<forall>d \<in> set ds. fst d \<noteq> 0 \<or> snd d \<noteq> 0) \<Longrightarrow>
         validDirs B row col p (int N) ds = Some (Inr (\<exists>d \<in> set ds. capturesDir B N p row col d))"
proof (induction ds)
  case Nil
  then show ?case by simp
next
  case (Cons d ds)
  obtain dr dc where d: "d = (dr, dc)" by (cases d)
  from Cons.prems have nz: "fst d \<noteq> 0 \<or> snd d \<noteq> 0" by simp
  from scanValid_capturesDir [OF wf nz, of p row col] Cons show ?case
    by (simp add: d)
qed

lemma directions_nonzero: "d \<in> set directions \<Longrightarrow> fst d \<noteq> 0 \<or> snd d \<noteq> 0"
  by (auto simp add: directions_def)

lemma isValidMove_legalMove:
  assumes wf: "wfBoard B N" and ob: "onBoard N row col"
  shows "isValidMove B row col p (int N) = Some (Inr (legalMove B N p row col))"
  using validDirs_captures [OF wf, of directions row col p] directions_nonzero
  by (auto simp add: isValidMove_def at_onBoard [OF wf ob] legalMove_def)

lemma isValidMove_col_off:
  "wfBoard B N \<Longrightarrow> 0 \<le> row \<Longrightarrow> row < int N \<Longrightarrow> \<not> (0 \<le> col \<and> col < int N) \<Longrightarrow>
   isValidMove B row col p (int N) = Some (Inr False)"
  by (simp add: isValidMove_def at_col_off)

lemma isValidMove_row_off:
  "wfBoard B N \<Longrightarrow> \<not> (0 \<le> row \<and> row < int N) \<Longrightarrow>
   isValidMove B row col p (int N) = Some (Inl TypeError)"
  by (simp add: isValidMove_def at_row_off)

lemma isValidMove_start4: "isValidMove start4 0 1 Black 4 = Some (Inr True)"
  "isValidMove start4 0 0 Black 4 = Some (Inr False)"
  "isValidMove start4 1 1 Black 4 = Some (Inr False)"
  by code_simp+

lemma scanValid_returns:
  assumes nz: "dr \<noteq> 0 \<or> dc \<noteq> 0"
  shows "scanValid B bs p dr dc r c h \<noteq> None"
proof (induction "stepsLeft (nat bs) dr dc r c" arbitrary: r c h rule: less_induct)
  case less
  show ?case
  proof (cases "0 \<le> r \<and> r < bs \<and> 0 \<le> c \<and> c < bs")
    case False
    then show ?thesis by (subst scanValid.simps) auto
  next
    case True
    then have "onBoard (nat bs) r c" by (simp add: onBoard_def)
    note ih = less [OF stepsLeft_less [OF this nz]]
    show ?thesis
      using True ih [of True]
      by (subst scanValid.simps) (auto split: sum.splits)
  qed
qed

lemma validDirs_returns:
  "(\<forall>d \<in> set ds. fst d \<noteq> 0 \<or> snd d \<noteq> 0) \<Longrightarrow> validDirs B row col p bs ds \<noteq> None"
proof (induction ds)
  case Nil
  then show ?case by simp
next
  case (Cons d ds)
  obtain dr dc where d: "d = (dr, dc)" by (cases d)
  from Cons.prems have "dr \<noteq> 0 \<or> dc \<noteq> 0" by (simp add: d)
  from scanValid_returns [OF this, of B bs p "row + dr" "col + dc" False] Cons show ?case
    by (auto simp add: d split: option.splits sum.splits)
qed

lemma isValidMove_returns: "isValidMove B row col p bs \<noteq> None"
  using validDirs_returns [of directions B row col p bs] directions_nonzero
  by (auto simp add: isValidMove_def split: sum.splits)

text \<open>
  Claim C1. On a well-formed board of side \<open>N\<close> and a cell \<open>(row, col)\<close> on it,
  \<open>isValidMove\<close> returns false when the cell is not empty, and otherwise returns whether
  one of the 8 directions captures: scanned outward from the cell it holds a run of one or
  more opponent cells followed at once by a cell of the player (\<open>capturesDir\<close>).
\<close>

theorem isValidMove_capture:
  "wfBoard B N \<Longrightarrow> onBoard N row col \<Longrightarrow>
   (cellOf B row col \<noteq> None \<longrightarrow> isValidMove B row col player (int N) = Some (Inr False)) \<and>
   (cellOf B row col = None \<longrightarrow>
      isValidMove B row col player (int N) =
        Some (Inr (\<exists>d \<in> set directions. capturesDir B N player row col d)))"
  using isValidMove_legalMove [of B N row col player] by (simp add: legalMove_def)

theorem isValidMove_capture_witness:
  "wfBoard start4 4 \<and> onBoard 4 0 1 \<and> cellOf start4 0 1 = None \<and>
   (\<exists>d \<in> set directions. capturesDir start4 4 Black 0 1 d) \<and>
   onBoard 4 1 1 \<and> cellOf start4 1 1 \<noteq> None \<and> isValidMove start4 1 1 Black 4 = Some (Inr False)"
proof -
  have ob: "onBoard 4 0 1" "onBoard 4 1 1" by (simp_all add: onBoard_def)
  have c: "cellOf start4 0 1 = None" "cellOf start4 1 1 \<noteq> None"
    by (simp_all add: cellOf_def start4_def)
  from isValidMove_capture [OF wfBoard_start4 ob(1), of Black] c(1) isValidMove_start4(1)
  have "\<exists>d \<in> set directions. capturesDir start4 4 Black 0 1 d" by simp
  moreover from isValidMove_capture [OF wfBoard_start4 ob(2), of Black] c(2)
  have "isValidMove start4 1 1 Black 4 = Some (Inr False)" by simp
  ultimately show ?thesis using wfBoard_start4 ob c by simp
qed

section \<open>getValidMoves enumerates the legal cells in row-major order\<close>

lemma getValidMovesCols_filter:
  "wfBoard B N \<Longrightarrow> 0 \<le> row \<Longrightarrow> row < int N \<Longrightarrow> 0 \<le> col \<Longrightarrow> col \<le> int N \<Longrightarrow>
   getValidMovesCols B p (int N) row col moves =
     Some (Inr (moves @ filter (isLegal B p (int N)) (map (Pair row) [col..int N - 1])))"
proof (induction B p "int N" row col moves rule: getValidMovesCols.induct)
  case (1 B p row col moves)
  show ?case
  proof (cases "col < int N")
    case False
    then show ?thesis by (subst getValidMovesCols.simps) simp
  next
    case True
    have ob: "onBoard N row col" using 1 True by (simp add: onBoard_def)
    have v: "isValidMove B row col p (int N) = Some (Inr (legalMove B N p row col))"
      using 1 ob by (simp add: isValidMove_legalMove)
    have up: "[col..int N - 1] = col # [col + 1..int N - 1]"
      using True by (simp add: upto_rec1)
    have il: "isLegal B p (int N) (row, col) = legalMove B N p row col"
      by (simp add: isLegal_def v)
    show ?thesis
      using True 1 v up il
      by (subst getValidMovesCols.simps) simp
  qed
qed

lemma getValidMovesRows_filter:
  "wfBoard B N \<Longrightarrow> 0 \<le> row \<Longrightarrow> row \<le> int N \<Longrightarrow>
   getValidMovesRows B p (int N) row moves =
     Some (Inr (moves @
       filter (isLegal B p (int N)) (List.product [row..int N - 1] [0..int N - 1])))"
proof (induction B p "int N" row moves rule: getValidMovesRows.induct)
  case (1 B p row moves)
  show ?case
  proof (cases "row < int N")
    case False
    then show ?thesis by (subst getValidMovesRows.simps) simp
  next
    case True
    have up: "[row..int N - 1] = row # [row + 1..int N - 1]"
      using True by (simp add: upto_rec1)
    have cols: "getValidMovesCols B p (int N) row 0 moves =
       Some (Inr (moves @ filter (isLegal B p (int N)) (map (Pair row) [0..int N - 1])))"
      using getValidMovesCols_filter [of B N row 0 p moves] 1 True by simp
    show ?thesis
      using True 1 cols up
      by (subst getValidMovesRows.simps) simp
  qed
qed

lemma getValidMoves_filter:
  "wfBoard B N \<Longrightarrow>
   getValidMoves B p (int N) = Some (Inr (filter (isLegal B p (int N)) (allCells N)))"
  using getValidMovesRows_filter [of B N 0 p "[]"] by (simp add: getValidMoves_def allCells_def)

lemma set_allCells: "set (allCells N) = {(r, c). onBoard N r c}"
  by (auto simp add: allCells_def onBoard_def)

lemma sorted_wrt_product:
  "sorted_wrt (<) xs \<Longrightarrow> sorted_wrt (<) ys \<Longrightarrow> sorted_wrt rowMajor (List.product xs ys)"
proof (induction xs)
  case Nil
  then show ?case by simp
next
  case (Cons x xs)
  have a: "sorted_wrt rowMajor (map (Pair x) ys)"
    using Cons.prems(2) by (simp add: sorted_wrt_map rowMajor_def)
  have b: "sorted_wrt rowMajor (List.product xs ys)" using Cons by simp
  have c: "\<forall>u \<in> set (map (Pair x) ys). \<forall>v \<in> set (List.product xs ys). rowMajor u v"
    using Cons.prems(1) by (auto simp add: rowMajor_def)
  from a b c show ?case by (simp add: sorted_wrt_append)
qed

lemma sorted_wrt_upto: "sorted_wrt (<) [i..j]"
  using sorted_upto [of i j] distinct_upto [of i j] by (simp add: strict_sorted_iff)

lemma allCells_rowMajor: "sorted_wrt rowMajor (allCells N)"
  by (simp add: allCells_def sorted_wrt_product sorted_wrt_upto)

lemma getValidMoves_spec:
  assumes wf: "wfBoard B N"
  shows "\<exists>ms. getValidMoves B p (int N) = Some (Inr ms) \<and>
     ms = filter (isLegal B p (int N)) (allCells N) \<and>
     set ms = {(r, c). onBoard N r c \<and> isValidMove B r c p (int N) = Some (Inr True)} \<and>
     sorted_wrt rowMajor ms \<and>
     (ms = [] \<longleftrightarrow> (\<forall>r c. onBoard N r c \<longrightarrow> isValidMove B r c p (int N) \<noteq> Some (Inr True)))"
proof -
  define ms where "ms = filter (isLegal B p (int N)) (allCells N)"
  have s: "set ms = {(r, c). onBoard N r c \<and> isValidMove B r c p (int N) = Some (Inr True)}"
    by (auto simp add: ms_def set_allCells isLegal_def)
  have e: "ms = [] \<longleftrightarrow> (\<forall>r c. onBoard N r c \<longrightarrow> isValidMove B r c p (int N) \<noteq> Some (Inr True))"
  proof -
    have "ms = [] \<longleftrightarrow> set ms = {}" by simp
    also have "\<dots> \<longleftrightarrow> (\<forall>r c. onBoard N r c \<longrightarrow> isValidMove B r c p (int N) \<noteq> Some (Inr True))"
      unfolding s by auto
    finally show ?thesis .
  qed
  have o: "sorted_wrt rowMajor ms"
    unfolding ms_def by (rule sorted_wrt_filter) (rule allCells_rowMajor)
  from getValidMoves_filter [OF wf, of p] s e o show ?thesis by (simp add: ms_def)
qed

lemma getValidMoves_hasLegalMove:
  assumes wf: "wfBoard B N"
  shows "\<exists>ms. getValidMoves B p (int N) = Some (Inr ms) \<and> (0 < length ms) = hasLegalMove B N p"
proof -
  have "(filter (isLegal B p (int N)) (allCells N) \<noteq> []) = hasLegalMove B N p"
    by (auto simp add: hasLegalMove_def filter_empty_conv)
  with getValidMoves_filter [OF wf, of p] show ?thesis by simp
qed

text \<open>
  Claim C4. On a well-formed board \<open>getValidMoves\<close> returns the cells of the board at
  which \<open>isValidMove\<close> returns true, and only those, in row-major order (rows ascending,
  columns ascending within a row); the list is empty exactly when no cell is a legal move.
\<close>

theorem getValidMoves_row_major:
  "wfBoard B N \<Longrightarrow>
   (\<exists>ms. getValidMoves B player (int N) = Some (Inr ms) \<and>
      ms = filter (isLegal B player (int N)) (allCells N) \<and>
      set ms = {(r, c). onBoard N r c \<and> isValidMove B r c player (int N) = Some (Inr True)} \<and>
      sorted_wrt rowMajor ms \<and>
      (ms = [] \<longleftrightarrow>
         (\<forall>r c. onBoard N r c \<longrightarrow> isValidMove B r c player (int N) \<noteq> Some (Inr True))))"
  by (rule getValidMoves_spec)

theorem getValidMoves_row_major_witness:
  "wfBoard start4 4 \<and> getValidMoves start4 Black 4 = Some (Inr [(0, 1), (1, 0), (2, 3), (3, 2)]) \<and>
   filter (isLegal start4 Black 4) (allCells 4) = [(0, 1), (1, 0), (2, 3), (3, 2)]"
proof -
  have g: "getValidMoves start4 Black 4 = Some (Inr [(0, 1), (1, 0), (2, 3), (3, 2)])"
    by code_simp
  from getValidMoves_row_major [OF wfBoard_start4, of Black] g
  have "filter (isLegal start4 Black 4) (allCells 4) = [(0, 1), (1, 0), (2, 3), (3, 2)]"
    by auto
  with wfBoard_start4 g show ?thesis by simp
qed

section \<open>makeMove flips the captured runs and nothing else\<close>

lemma paintCells_Nil [simp]: "paintCells B [] v = B"
  by (simp add: paintCells_def)

lemma paintCells_Cons [simp]: "paintCells B ((r, c) # ps) v = paintCells (putCell B r c v) ps v"
  by (simp add: paintCells_def)

lemma wfBoard_paintCells: "wfBoard B N \<Longrightarrow> wfBoard (paintCells B ps v) N"
  by (induction ps arbitrary: B) (auto simp add: wfBoard_putCell)

lemma cellOf_paintCells:
  "wfBoard B N \<Longrightarrow> (\<forall>rc \<in> set ps. onBoard N (fst rc) (snd rc)) \<Longrightarrow> onBoard N r c \<Longrightarrow>
   cellOf (paintCells B ps v) r c = (if (r, c) \<in> set ps then v else cellOf B r c)"
proof (induction ps arbitrary: B)
  case Nil
  then show ?case by simp
next
  case (Cons a ps)
  obtain ar ac where a: "a = (ar, ac)" by (cases a)
  from Cons.prems have oa: "onBoard N ar ac" by (simp add: a)
  have wf': "wfBoard (putCell B ar ac v) N" using Cons.prems by (simp add: wfBoard_putCell)
  have "cellOf (paintCells (putCell B ar ac v) ps v) r c =
        (if (r, c) \<in> set ps then v else cellOf (putCell B ar ac v) r c)"
    using Cons.IH [OF wf'] Cons.prems by simp
  then show ?case
    using cellOf_putCell [OF Cons.prems(1) oa Cons.prems(3), of v] by (auto simp add: a)
qed

lemma flipAll_paintCells:
  "wfBoard B N \<Longrightarrow> (\<forall>rc \<in> set ps. onBoard N (fst rc) (snd rc)) \<Longrightarrow>
   flipAll B ps p = Inr (paintCells B ps (Some p))"
proof (induction ps arbitrary: B)
  case Nil
  then show ?case by simp
next
  case (Cons a ps)
  obtain ar ac where a: "a = (ar, ac)" by (cases a)
  from Cons.prems have oa: "onBoard N ar ac" by (simp add: a)
  have wf': "wfBoard (putCell B ar ac (Some p)) N" using Cons.prems by (simp add: wfBoard_putCell)
  show ?case
    using Cons.IH [OF wf'] Cons.prems setCell_onBoard [OF Cons.prems(1) oa]
    by (simp add: a thenE_def)
qed

lemma scanFlip_off:
  "\<not> onBoard N r c \<Longrightarrow> scanFlip B (int N) p dr dc r c tf = Some (Inr B)"
  by (subst scanFlip.simps) (auto simp add: onBoard_def)

lemma scanFlip_on:
  "wfBoard B N \<Longrightarrow> onBoard N r c \<Longrightarrow>
   scanFlip B (int N) p dr dc r c tf =
     (if cellOf B r c = Some (opponent p)
      then scanFlip B (int N) p dr dc (r + dr) (c + dc) (tf @ [(r, c)])
      else if cellOf B r c = Some p \<and> tf \<noteq> [] then Some (flipAll B tf p)
      else Some (Inr B))"
  by (subst scanFlip.simps) (auto simp add: at_onBoard, auto simp add: onBoard_def)

lemma scanFlip_run:
  assumes wf: "wfBoard B N" and nz: "dr \<noteq> 0 \<or> dc \<noteq> 0"
  shows "(\<forall>rc \<in> set tf. onBoard N (fst rc) (snd rc)) \<Longrightarrow>
    (\<forall>k. runTo B N p dr dc r c k \<and> (tf \<noteq> [] \<or> 0 < k) \<longrightarrow>
       scanFlip B (int N) p dr dc r c tf =
         Some (Inr (paintCells B (tf @ rayCells r c dr dc k) (Some p)))) \<and>
    ((\<forall>k. \<not> (runTo B N p dr dc r c k \<and> (tf \<noteq> [] \<or> 0 < k))) \<longrightarrow>
       scanFlip B (int N) p dr dc r c tf = Some (Inr B))"
proof (induction "stepsLeft N dr dc r c" arbitrary: r c tf rule: less_induct)
  case less
  show ?case
  proof (cases "onBoard N r c")
    case False
    then have "\<not> runTo B N p dr dc r c k" for k using runTo_onBoard by blast
    with False show ?thesis by (simp add: scanFlip_off)
  next
    case True
    consider (opp) "cellOf B r c = Some (opponent p)" | (own) "cellOf B r c = Some p"
      | (other) "cellOf B r c \<noteq> Some p" "cellOf B r c \<noteq> Some (opponent p)" by blast
    then show ?thesis
    proof cases
      case opp
      have on': "\<forall>rc \<in> set (tf @ [(r, c)]). onBoard N (fst rc) (snd rc)"
        using less.prems True by simp
      note ih = less.hyps [OF stepsLeft_less [OF True nz] on']
      have step: "scanFlip B (int N) p dr dc r c tf =
                  scanFlip B (int N) p dr dc (r + dr) (c + dc) (tf @ [(r, c)])"
        using opp True wf by (simp add: scanFlip_on)
      have a: "scanFlip B (int N) p dr dc r c tf =
               Some (Inr (paintCells B (tf @ rayCells r c dr dc k) (Some p)))"
        if "runTo B N p dr dc r c k" for k
      proof (cases k)
        case 0
        with that opp show ?thesis by simp
      next
        case (Suc k')
        with that have "runTo B N p dr dc (r + dr) (c + dc) k'" by simp
        with ih show ?thesis by (simp add: step Suc)
      qed
      have b: "scanFlip B (int N) p dr dc r c tf = Some (Inr B)"
        if "\<forall>k. \<not> (runTo B N p dr dc r c k \<and> (tf \<noteq> [] \<or> 0 < k))"
      proof -
        have "\<not> runTo B N p dr dc (r + dr) (c + dc) k'" for k'
          using that [rule_format, of "Suc k'"] opp True by simp
        with ih show ?thesis by (simp add: step)
      qed
      from a b show ?thesis by blast
    next
      case own
      have k0: "k = 0" if "runTo B N p dr dc r c k" for k
        using that own by (cases k) auto
      have r0: "runTo B N p dr dc r c 0" using own True by simp
      show ?thesis
      proof (cases "tf = []")
        case True
        with k0 own \<open>onBoard N r c\<close> wf show ?thesis by (auto simp add: scanFlip_on)
      next
        case False
        have res: "scanFlip B (int N) p dr dc r c tf = Some (Inr (paintCells B tf (Some p)))"
          using False own True wf flipAll_paintCells [OF wf less.prems]
          by (simp add: scanFlip_on)
        have a: "scanFlip B (int N) p dr dc r c tf =
                 Some (Inr (paintCells B (tf @ rayCells r c dr dc k) (Some p)))"
          if "runTo B N p dr dc r c k" for k
          using k0 [OF that] res by simp
        have b: "\<not> (\<forall>k. \<not> (runTo B N p dr dc r c k \<and> (tf \<noteq> [] \<or> 0 < k)))"
          using r0 False by blast
        from a b show ?thesis by blast
      qed
    next
      case other
      then show ?thesis
        using True wf runTo_other [OF other] by (simp add: scanFlip_on)
    qed
  qed
qed

lemma set_rayCells:
  "set (rayCells r c dr dc k) = {(r + int j * dr, c + int j * dc) | j. j < k}"
proof (induction k arbitrary: r c)
  case 0
  then show ?case by simp
next
  case (Suc k)
  have "{(r + int j * dr, c + int j * dc) | j. j < Suc k} =
        insert (r, c) {(r + dr + int j * dr, c + dc + int j * dc) | j. j < k}" (is "?L = ?R")
  proof
    show "?L \<subseteq> ?R"
    proof
      fix x assume "x \<in> ?L"
      then obtain j where j: "x = (r + int j * dr, c + int j * dc)" "j < Suc k" by blast
      show "x \<in> ?R"
      proof (cases j)
        case 0
        with j show ?thesis by simp
      next
        case (Suc j')
        with j have "x = (r + dr + int j' * dr, c + dc + int j' * dc)" "j' < k"
          by (simp_all add: algebra_simps)
        then show ?thesis by blast
      qed
    qed
    show "?R \<subseteq> ?L"
    proof
      fix x assume "x \<in> ?R"
      then consider "x = (r, c)" | j where "x = (r + dr + int j * dr, c + dc + int j * dc)" "j < k"
        by blast
      then show "x \<in> ?L"
      proof cases
        case 1
        then have "x = (r + int 0 * dr, c + int 0 * dc)" by simp
        then show ?thesis by blast
      next
        case 2
        then have "x = (r + int (Suc j) * dr, c + int (Suc j) * dc)" "Suc j < Suc k"
          by (simp_all add: algebra_simps)
        then show ?thesis by blast
      qed
    qed
  qed
  with Suc show ?case by simp
qed

lemma rayCells_onBoard:
  "runTo B N p dr dc r c k \<Longrightarrow> \<forall>rc \<in> set (rayCells r c dr dc k). onBoard N (fst rc) (snd rc)"
  by (induction k arbitrary: r c) auto

lemma runTo_unique:
  "runTo B N p dr dc r c k \<Longrightarrow> runTo B N p dr dc r c k' \<Longrightarrow> k = k'"
proof (induction k arbitrary: r c k')
  case 0
  then show ?case by (cases k') auto
next
  case (Suc k)
  then show ?case by (cases k') auto
qed

lemma runTo_cong:
  "(\<forall>j \<le> k. onBoard N (r + int j * dr) (c + int j * dc) \<longrightarrow>
      cellOf B1 (r + int j * dr) (c + int j * dc) = cellOf B (r + int j * dr) (c + int j * dc))
   \<Longrightarrow> runTo B1 N p dr dc r c k = runTo B N p dr dc r c k"
proof (induction k arbitrary: r c)
  case 0
  then show ?case by auto
next
  case (Suc k)
  have here: "onBoard N r c \<Longrightarrow> cellOf B1 r c = cellOf B r c"
    using Suc.prems [rule_format, of 0] by simp
  have "\<forall>j \<le> k. onBoard N (r + dr + int j * dr) (c + dc + int j * dc) \<longrightarrow>
                 cellOf B1 (r + dr + int j * dr) (c + dc + int j * dc) =
                 cellOf B (r + dr + int j * dr) (c + dc + int j * dc)"
  proof (intro allI impI)
    fix j assume "j \<le> k" "onBoard N (r + dr + int j * dr) (c + dc + int j * dc)"
    then show "cellOf B1 (r + dr + int j * dr) (c + dc + int j * dc) =
               cellOf B (r + dr + int j * dr) (c + dc + int j * dc)"
      using Suc.prems [rule_format, of "Suc j"] by (simp add: algebra_simps)
  qed
  from Suc.IH [OF this] here show ?case by auto
qed

lemma rays_disjoint:
  assumes "unitDir d" "unitDir d'" "1 \<le> j" "1 \<le> j'"
    and "int j * fst d = int j' * fst d'" "int j * snd d = int j' * snd d'"
  shows "d = d'"
proof -
  obtain a b where d: "d = (a, b)" by (cases d)
  obtain a' b' where d': "d' = (a', b')" by (cases d')
  have u: "a \<in> {-1, 0, 1}" "b \<in> {-1, 0, 1}" "a \<noteq> 0 \<or> b \<noteq> 0"
    "a' \<in> {-1, 0, 1}" "b' \<in> {-1, 0, 1}" "a' \<noteq> 0 \<or> b' \<noteq> 0"
    using assms(1,2) by (simp_all add: unitDir_def d d')
  have e: "int j * a = int j' * a'" "int j * b = int j' * b'"
    using assms(5,6) by (simp_all add: d d')
  have pos: "0 < int j" "0 < int j'" using assms(3,4) by simp_all
  have jj: "int j = int j'"
    using u e pos by (elim insertE emptyE disjE; simp)
  with e pos have "a = a'" "b = b'" by simp_all
  then show ?thesis by (simp add: d d')
qed

lemma scanFlip_start:
  assumes wf: "wfBoard B N" and nz: "fst d \<noteq> 0 \<or> snd d \<noteq> 0"
  shows "\<exists>B'. scanFlip B (int N) p (fst d) (snd d) (row + fst d) (col + snd d) [] = Some (Inr B') \<and>
           wfBoard B' N \<and>
           (\<forall>r c. onBoard N r c \<longrightarrow>
              cellOf B' r c = (if flippedBy B N p row col d r c then Some p else cellOf B r c))"
proof (cases "\<exists>k. runTo B N p (fst d) (snd d) (row + fst d) (col + snd d) k \<and> 0 < k")
  case False
  then have "\<not> flippedBy B N p row col d r c" for r c
    by (auto simp add: flippedBy_def)
  moreover have "scanFlip B (int N) p (fst d) (snd d) (row + fst d) (col + snd d) [] = Some (Inr B)"
    using scanFlip_run [OF wf nz, of "[]" p "row + fst d" "col + snd d"] False by simp
  ultimately show ?thesis using wf by simp
next
  case True
  then obtain k where k: "runTo B N p (fst d) (snd d) (row + fst d) (col + snd d) k" "0 < k"
    by blast
  define ps where "ps = rayCells (row + fst d) (col + snd d) (fst d) (snd d) k"
  have kN: "k < N" using runTo_bound [OF k(1) nz] .
  have res: "scanFlip B (int N) p (fst d) (snd d) (row + fst d) (col + snd d) [] =
             Some (Inr (paintCells B ps (Some p)))"
    using scanFlip_run [OF wf nz, of "[]" p "row + fst d" "col + snd d"] k by (simp add: ps_def)
  have on: "\<forall>rc \<in> set ps. onBoard N (fst rc) (snd rc)"
    unfolding ps_def using rayCells_onBoard [OF k(1)] .
  have mem: "((r, c) \<in> set ps) = flippedBy B N p row col d r c" for r c
  proof
    assume "(r, c) \<in> set ps"
    then obtain j where j: "r = row + fst d + int j * fst d" "c = col + snd d + int j * snd d" "j < k"
      by (auto simp add: ps_def set_rayCells)
    then have "r = row + int (Suc j) * fst d" "c = col + int (Suc j) * snd d" "Suc j \<in> {1..k}"
      by (simp_all add: algebra_simps)
    with k kN show "flippedBy B N p row col d r c"
      unfolding flippedBy_def by (intro bexI [of _ k] conjI bexI [of _ "Suc j"]) auto
  next
    assume "flippedBy B N p row col d r c"
    then obtain k' j where
      k': "runTo B N p (fst d) (snd d) (row + fst d) (col + snd d) k'"
      and j: "1 \<le> j" "j \<le> k'" "r = row + int j * fst d" "c = col + int j * snd d"
      by (auto simp add: flippedBy_def)
    from runTo_unique [OF k' k(1)] have "k' = k" .
    with j have "r = row + fst d + int (j - 1) * fst d" "c = col + snd d + int (j - 1) * snd d"
      "j - 1 < k"
      by (simp_all add: algebra_simps of_nat_diff)
    then show "(r, c) \<in> set ps"
      unfolding ps_def set_rayCells by blast
  qed
  have "cellOf (paintCells B ps (Some p)) r c =
        (if flippedBy B N p row col d r c then Some p else cellOf B r c)" if "onBoard N r c" for r c
    using cellOf_paintCells [OF wf on that] mem by simp
  with res wfBoard_paintCells [OF wf] show ?thesis by simp
qed

lemma flippedBy_cong:
  assumes same: "\<And>j. 1 \<le> j \<Longrightarrow> onBoard N (row + int j * fst d) (col + int j * snd d) \<Longrightarrow>
     cellOf B1 (row + int j * fst d) (col + int j * snd d) =
     cellOf B (row + int j * fst d) (col + int j * snd d)"
  shows "flippedBy B1 N p row col d r c = flippedBy B N p row col d r c"
proof -
  have "runTo B1 N p (fst d) (snd d) (row + fst d) (col + snd d) k =
        runTo B N p (fst d) (snd d) (row + fst d) (col + snd d) k" for k
  proof (rule runTo_cong, intro allI impI)
    fix j assume "j \<le> k"
      and "onBoard N (row + fst d + int j * fst d) (col + snd d + int j * snd d)"
    then show "cellOf B1 (row + fst d + int j * fst d) (col + snd d + int j * snd d) =
          cellOf B (row + fst d + int j * fst d) (col + snd d + int j * snd d)"
      using same [of "Suc j"] by (simp add: algebra_simps)
  qed
  then show ?thesis by (simp add: flippedBy_def)
qed

lemma flippedBy_onBoard:
  "flippedBy B N p row col d r c \<Longrightarrow> onBoard N r c"
proof -
  assume "flippedBy B N p row col d r c"
  then obtain k j where
    k: "runTo B N p (fst d) (snd d) (row + fst d) (col + snd d) k"
    and j: "1 \<le> j" "j \<le> k" "r = row + int j * fst d" "c = col + int j * snd d"
    by (auto simp add: flippedBy_def)
  have "(row + fst d + int (j - 1) * fst d, col + snd d + int (j - 1) * snd d)
        \<in> set (rayCells (row + fst d) (col + snd d) (fst d) (snd d) k)"
    unfolding set_rayCells using j by (intro CollectI exI [of _ "j - 1"]) auto
  with rayCells_onBoard [OF k]
  have "onBoard N (row + fst d + int (j - 1) * fst d) (col + snd d + int (j - 1) * snd d)"
    by auto
  moreover have "row + fst d + int (j - 1) * fst d = r" "col + snd d + int (j - 1) * snd d = c"
    using j by (simp_all add: algebra_simps of_nat_diff)
  ultimately show ?thesis by simp
qed

lemma flippedBy_ray:
  "flippedBy B N p row col d r c \<Longrightarrow> \<exists>j\<ge>1. r = row + int j * fst d \<and> c = col + int j * snd d"
  by (auto simp add: flippedBy_def)

lemma flipDirs_cells:
  assumes wf: "wfBoard B N"
  shows "distinct ds \<Longrightarrow> (\<forall>d \<in> set ds. unitDir d) \<Longrightarrow>
    \<exists>B'. flipDirs B row col p (int N) ds = Some (Inr B') \<and> wfBoard B' N \<and>
      (\<forall>r c. onBoard N r c \<longrightarrow>
         cellOf B' r c =
           (if \<exists>d \<in> set ds. flippedBy B N p row col d r c then Some p else cellOf B r c))"
  using wf
proof (induction ds arbitrary: B)
  case Nil
  then show ?case by simp
next
  case (Cons d ds)
  obtain dr dc where d: "d = (dr, dc)" by (cases d)
  from Cons.prems have ud: "unitDir d" by simp
  then have nz: "fst d \<noteq> 0 \<or> snd d \<noteq> 0" by (simp add: unitDir_def)
  from scanFlip_start [OF Cons.prems(3) nz, of p row col] obtain B1 where
    B1: "scanFlip B (int N) p (fst d) (snd d) (row + fst d) (col + snd d) [] = Some (Inr B1)"
    and wf1: "wfBoard B1 N"
    and c1: "\<And>r c. onBoard N r c \<Longrightarrow>
         cellOf B1 r c = (if flippedBy B N p row col d r c then Some p else cellOf B r c)"
    by blast
  from Cons.prems have dist: "distinct ds" and units: "\<forall>d \<in> set ds. unitDir d" by simp_all
  from Cons.IH [OF dist units wf1] obtain B' where
    B': "flipDirs B1 row col p (int N) ds = Some (Inr B')"
    and wf': "wfBoard B' N"
    and c': "\<And>r c. onBoard N r c \<Longrightarrow>
         cellOf B' r c =
           (if \<exists>d \<in> set ds. flippedBy B1 N p row col d r c then Some p else cellOf B1 r c)"
    by blast
  have same: "flippedBy B1 N p row col d' r c = flippedBy B N p row col d' r c"
    if d': "d' \<in> set ds" for d' r c
  proof -
    have ne: "d' \<noteq> d" using Cons.prems(1) d' by auto
    have ud': "unitDir d'" using units d' by simp
    have eq: "cellOf B1 (row + int j * fst d') (col + int j * snd d') =
          cellOf B (row + int j * fst d') (col + int j * snd d')"
      if j: "1 \<le> j" and ob: "onBoard N (row + int j * fst d') (col + int j * snd d')" for j
    proof -
      have "\<not> flippedBy B N p row col d (row + int j * fst d') (col + int j * snd d')"
      proof
        assume "flippedBy B N p row col d (row + int j * fst d') (col + int j * snd d')"
        from flippedBy_ray [OF this] obtain i where
          i: "1 \<le> i" "row + int j * fst d' = row + int i * fst d"
             "col + int j * snd d' = col + int i * snd d" by blast
        from rays_disjoint [OF ud' ud j i(1)] i(2,3) have "d' = d" by simp
        with ne show False by simp
      qed
      with c1 [OF ob] show ?thesis by simp
    qed
    show ?thesis by (rule flippedBy_cong) (rule eq)
  qed
  have cells: "cellOf B' r c =
       (if \<exists>d' \<in> set (d # ds). flippedBy B N p row col d' r c then Some p else cellOf B r c)"
    if ob: "onBoard N r c" for r c
    using c' [OF ob] c1 [OF ob] same by auto
  have "flipDirs B row col p (int N) (d # ds) = Some (Inr B')"
    using B1 B' by (simp add: d)
  with wf' cells show ?case by blast
qed

lemma directions_distinct: "distinct directions"
  by (simp add: directions_def)

lemma directions_unit: "d \<in> set directions \<Longrightarrow> unitDir d"
  by (auto simp add: directions_def unitDir_def)

lemma makeMove_illegal:
  assumes wf: "wfBoard B N" and ob: "onBoard N row col" and il: "\<not> legalMove B N p row col"
  shows "makeMove B row col p (int N) = Some (Inr B)"
  using isValidMove_legalMove [OF wf ob, of p] il by (simp add: makeMove_def)

lemma makeMove_cells:
  assumes wf: "wfBoard B N" and ob: "onBoard N row col" and legal: "legalMove B N p row col"
  shows "\<exists>B'. makeMove B row col p (int N) = Some (Inr B') \<and> wfBoard B' N \<and>
      (\<forall>r c. onBoard N r c \<longrightarrow>
         cellOf B' r c =
           (if (r = row \<and> c = col) \<or> (\<exists>d \<in> set directions. flippedBy B N p row col d r c)
            then Some p else cellOf B r c))"
proof -
  define B0 where "B0 = putCell B row col (Some p)"
  have wf0: "wfBoard B0 N" using wf by (simp add: B0_def wfBoard_putCell)
  have c0: "cellOf B0 r c = (if r = row \<and> c = col then Some p else cellOf B r c)"
    if "onBoard N r c" for r c
    unfolding B0_def using cellOf_putCell [OF wf ob that] .
  have same: "flippedBy B0 N p row col d r c = flippedBy B N p row col d r c"
    if d: "d \<in> set directions" for d r c
  proof (rule flippedBy_cong)
    fix j :: nat
    assume j: "1 \<le> j" and on: "onBoard N (row + int j * fst d) (col + int j * snd d)"
    from directions_nonzero [OF d] j
    have "\<not> (row + int j * fst d = row \<and> col + int j * snd d = col)" by auto
    with c0 [OF on]
    show "cellOf B0 (row + int j * fst d) (col + int j * snd d) =
          cellOf B (row + int j * fst d) (col + int j * snd d)" by auto
  qed
  from flipDirs_cells [OF wf0 directions_distinct] directions_unit
  obtain B' where
    B': "flipDirs B0 row col p (int N) directions = Some (Inr B')"
    and wf': "wfBoard B' N"
    and c': "\<And>r c. onBoard N r c \<Longrightarrow>
         cellOf B' r c =
           (if \<exists>d \<in> set directions. flippedBy B0 N p row col d r c then Some p
            else cellOf B0 r c)"
    by blast
  have cells: "cellOf B' r c =
       (if (r = row \<and> c = col) \<or> (\<exists>d \<in> set directions. flippedBy B N p row col d r c)
        then Some p else cellOf B r c)" if on: "onBoard N r c" for r c
    using c' [OF on] c0 [OF on] same by auto
  have "makeMove B row col p (int N) = Some (Inr B')"
    using isValidMove_legalMove [OF wf ob, of p] legal setCell_onBoard [OF wf ob, of "Some p"] B'
    by (simp add: makeMove_def B0_def)
  with wf' cells show ?thesis by blast
qed

lemma makeMove_valid_cells:
  assumes wf: "wfBoard B N" and ob: "onBoard N row col"
    and valid: "isValidMove B row col p (int N) = Some (Inr True)"
  shows "cellOf B row col = None \<and>
    (\<exists>B'. makeMove B row col p (int N) = Some (Inr B') \<and> wfBoard B' N \<and>
      (\<forall>r c. onBoard N r c \<longrightarrow>
         cellOf B' r c =
           (if (r = row \<and> c = col) \<or> (\<exists>d \<in> set directions. flippedBy B N p row col d r c)
            then Some p else cellOf B r c)))"
proof -
  from isValidMove_legalMove [OF wf ob, of p] valid have legal: "legalMove B N p row col" by simp
  then have "cellOf B row col = None" by (simp add: legalMove_def)
  with makeMove_cells [OF wf ob legal] show ?thesis by blast
qed

lemma flippedBy_opponent:
  assumes "flippedBy B N p row col d r c"
  shows "cellOf B r c = Some (opponent p)"
proof -
  from assms obtain k j where
    k: "runTo B N p (fst d) (snd d) (row + fst d) (col + snd d) k"
    and j: "1 \<le> j" "j \<le> k" "r = row + int j * fst d" "c = col + int j * snd d"
    by (auto simp add: flippedBy_def)
  have "j - 1 < k" using j by simp
  with k [unfolded runTo_iff]
  have "cellOf B (row + fst d + int (j - 1) * fst d) (col + snd d + int (j - 1) * snd d) =
        Some (opponent p)" by blast
  moreover have "row + fst d + int (j - 1) * fst d = r" "col + snd d + int (j - 1) * snd d = c"
    using j by (simp_all add: algebra_simps of_nat_diff)
  ultimately show ?thesis by simp
qed

lemma flippedBy_between:
  assumes f: "flippedBy B N p row col d r c"
  shows "\<exists>j\<ge>1. r = row + int j * fst d \<and> c = col + int j * snd d \<and>
           (\<forall>i \<in> {1..j}. onBoard N (row + int i * fst d) (col + int i * snd d) \<and>
              cellOf B (row + int i * fst d) (col + int i * snd d) = Some (opponent p))"
proof -
  from f obtain k j where
    k: "runTo B N p (fst d) (snd d) (row + fst d) (col + snd d) k"
    and j: "1 \<le> j" "j \<le> k" "r = row + int j * fst d" "c = col + int j * snd d"
    by (auto simp add: flippedBy_def)
  have "onBoard N (row + int i * fst d) (col + int i * snd d) \<and>
        cellOf B (row + int i * fst d) (col + int i * snd d) = Some (opponent p)"
    if i: "i \<in> {1..j}" for i
  proof -
    have lt: "i - 1 < k" using i j(1,2) by auto
    have e: "row + fst d + int (i - 1) * fst d = row + int i * fst d"
      "col + snd d + int (i - 1) * snd d = col + int i * snd d"
      using i by (simp_all add: algebra_simps of_nat_diff)
    from k [unfolded runTo_iff] lt
    have "onBoard N (row + fst d + int (i - 1) * fst d) (col + snd d + int (i - 1) * snd d) \<and>
          cellOf B (row + fst d + int (i - 1) * fst d) (col + snd d + int (i - 1) * snd d) =
            Some (opponent p)" by blast
    then show ?thesis by (simp only: e)
  qed
  with j show ?thesis by blast
qed

lemma capturesDir_flippedBy:
  assumes cap: "capturesDir B N p row col d"
    and run: "\<forall>i \<in> {1..j}. onBoard N (row + int i * fst d) (col + int i * snd d) \<and>
              cellOf B (row + int i * fst d) (col + int i * snd d) = Some (opponent p)"
    and j: "1 \<le> j"
  shows "flippedBy B N p row col d (row + int j * fst d) (col + int j * snd d)"
proof -
  from cap obtain k where kN: "k \<in> {1..<N}"
    and k: "runTo B N p (fst d) (snd d) (row + fst d) (col + snd d) k"
    by (auto simp add: capturesDir_def)
  have "j \<le> k"
  proof (rule ccontr)
    assume "\<not> j \<le> k"
    then have "Suc k \<in> {1..j}" by simp
    with run have "cellOf B (row + int (Suc k) * fst d) (col + int (Suc k) * snd d) =
                   Some (opponent p)" by blast
    moreover from k [unfolded runTo_iff]
    have "cellOf B (row + fst d + int k * fst d) (col + snd d + int k * snd d) = Some p" by simp
    moreover have "row + fst d + int k * fst d = row + int (Suc k) * fst d"
      "col + snd d + int k * snd d = col + int (Suc k) * snd d"
      by (simp_all add: algebra_simps)
    ultimately show False by simp
  qed
  with kN k j show ?thesis
    unfolding flippedBy_def by (intro bexI [of _ k] conjI bexI [of _ j]) auto
qed

lemma flippedBy_same_direction:
  assumes f: "flippedBy B N p row col d' (row + int j * fst d) (col + int j * snd d)"
    and d: "d \<in> set directions" and d': "d' \<in> set directions" and j: "1 \<le> j"
  shows "d' = d \<and> capturesDir B N p row col d"
proof -
  from flippedBy_ray [OF f] obtain i where
    i: "1 \<le> i" "row + int j * fst d = row + int i * fst d'"
       "col + int j * snd d = col + int i * snd d'" by blast
  from rays_disjoint [OF directions_unit [OF d] directions_unit [OF d'] j i(1)] i(2,3)
  have "d = d'" by simp
  moreover from f have "capturesDir B N p row col d'"
    by (auto simp add: flippedBy_def capturesDir_def)
  ultimately show ?thesis by simp
qed

lemma makeMove_start4: "isValidMove start4 0 1 Black (int 4) = Some (Inr True)"
  "makeMove start4 0 1 Black 4 =
     Some (Inr [[None, Some Black, None, None],
                [None, Some Black, Some Black, None],
                [None, Some Black, Some White, None],
                [None, None, None, None]])"
  by code_simp+

lemma scanFlip_returns:
  assumes nz: "dr \<noteq> 0 \<or> dc \<noteq> 0"
  shows "scanFlip B bs p dr dc r c tf \<noteq> None"
proof (induction "stepsLeft (nat bs) dr dc r c" arbitrary: r c tf rule: less_induct)
  case less
  show ?case
  proof (cases "0 \<le> r \<and> r < bs \<and> 0 \<le> c \<and> c < bs")
    case False
    then show ?thesis by (subst scanFlip.simps) auto
  next
    case True
    then have "onBoard (nat bs) r c" by (simp add: onBoard_def)
    note ih = less [OF stepsLeft_less [OF this nz]]
    show ?thesis
      using True ih [of "tf @ [(r, c)]"]
      by (subst scanFlip.simps) (auto split: sum.splits)
  qed
qed

lemma flipDirs_returns:
  "(\<forall>d \<in> set ds. fst d \<noteq> 0 \<or> snd d \<noteq> 0) \<Longrightarrow> flipDirs B row col p bs ds \<noteq> None"
proof (induction ds arbitrary: B)
  case Nil
  then show ?case by simp
next
  case (Cons d ds)
  obtain dr dc where d: "d = (dr, dc)" by (cases d)
  from Cons.prems have "dr \<noteq> 0 \<or> dc \<noteq> 0" by (simp add: d)
  from scanFlip_returns [OF this, of B bs p "row + dr" "col + dc" "[]"] Cons show ?case
    by (auto simp add: d split: option.splits sum.splits)
qed

lemma makeMove_returns: "makeMove B row col p bs \<noteq> None"
  using isValidMove_returns [of B row col p bs] directions_nonzero
    flipDirs_returns [of directions _ row col p bs]
  by (auto simp add: makeMove_def split: option.splits sum.splits)

text \<open>
  Claim C3. When \<open>isValidMove\<close> returns false at a cell of a well-formed board,
  \<open>makeMove\<close> returns the board it was given, and raises no error.
\<close>

theorem makeMove_illegal_noop:
  "wfBoard B N \<Longrightarrow> onBoard N row col \<Longrightarrow>
   isValidMove B row col player (int N) = Some (Inr False) \<Longrightarrow>
   makeMove B row col player (int N) = Some (Inr B)"
  by (simp add: makeMove_def)

theorem makeMove_illegal_noop_witness:
  "wfBoard start4 4 \<and> onBoard 4 0 0 \<and> isValidMove start4 0 0 Black 4 = Some (Inr False) \<and>
   makeMove start4 0 0 Black 4 = Some (Inr start4)"
proof -
  have ob: "onBoard 4 0 0" by (simp add: onBoard_def)
  from makeMove_illegal_noop [OF wfBoard_start4 ob, of Black] isValidMove_start4(2)
  have "makeMove start4 0 0 Black 4 = Some (Inr start4)" by simp
  with wfBoard_start4 ob isValidMove_start4(2) show ?thesis by simp
qed

text \<open>
  Claim C2. For a legal move on a well-formed board, \<open>makeMove\<close> returns a well-formed
  board \<open>B'\<close> in which the move cell holds the player; in each of the 8 directions a cell
  of the contiguous opponent run next to the move cell is the player's in \<open>B'\<close> exactly when
  that direction captures (the run ends in a cell of the player); a cell that went from
  the opponent to the player lies on a ray from the move cell with opponent cells, hence
  no empty cell, all the way between; and every cell other than the move cell and those
  flipped cells is unchanged.
\<close>

theorem makeMove_flips:
  "wfBoard B N \<Longrightarrow> onBoard N row col \<Longrightarrow>
   isValidMove B row col player (int N) = Some (Inr True) \<Longrightarrow>
   (\<exists>B'. makeMove B row col player (int N) = Some (Inr B') \<and> wfBoard B' N \<and>
      cellOf B' row col = Some player \<and>
      (\<forall>d \<in> set directions. \<forall>j\<ge>1.
         (\<forall>i \<in> {1..j}. onBoard N (row + int i * fst d) (col + int i * snd d) \<and>
            cellOf B (row + int i * fst d) (col + int i * snd d) = Some (opponent player)) \<longrightarrow>
         (cellOf B' (row + int j * fst d) (col + int j * snd d) = Some player \<longleftrightarrow>
            capturesDir B N player row col d)) \<and>
      (\<forall>r c. onBoard N r c \<longrightarrow>
         cellOf B r c = Some (opponent player) \<longrightarrow> cellOf B' r c = Some player \<longrightarrow>
         (\<exists>d \<in> set directions. \<exists>j\<ge>1. r = row + int j * fst d \<and> c = col + int j * snd d \<and>
            (\<forall>i \<in> {1..j}. cellOf B (row + int i * fst d) (col + int i * snd d) \<noteq> None))) \<and>
      (\<forall>r c. onBoard N r c \<longrightarrow> cellOf B' r c \<noteq> cellOf B r c \<longrightarrow>
         (r = row \<and> c = col) \<or>
         (cellOf B r c = Some (opponent player) \<and> cellOf B' r c = Some player)) \<and>
      (\<forall>r c. onBoard N r c \<longrightarrow>
         cellOf B' r c =
           (if (r = row \<and> c = col) \<or>
               (\<exists>d \<in> set directions. flippedBy B N player row col d r c)
            then Some player else cellOf B r c)))"
proof -
  assume wf: "wfBoard B N" and ob: "onBoard N row col"
    and valid: "isValidMove B row col player (int N) = Some (Inr True)"
  from makeMove_valid_cells [OF wf ob valid] obtain B' where
    mm: "makeMove B row col player (int N) = Some (Inr B')" and wf': "wfBoard B' N"
    and cells: "\<And>r c. onBoard N r c \<Longrightarrow>
         cellOf B' r c =
           (if (r = row \<and> c = col) \<or>
               (\<exists>d \<in> set directions. flippedBy B N player row col d r c)
            then Some player else cellOf B r c)"
    by blast
  have origin: "cellOf B' row col = Some player" using cells [OF ob] by simp
  have dirs: "cellOf B' (row + int j * fst d) (col + int j * snd d) = Some player \<longleftrightarrow>
              capturesDir B N player row col d"
    if d: "d \<in> set directions" and j: "1 \<le> j"
      and run: "\<forall>i \<in> {1..j}. onBoard N (row + int i * fst d) (col + int i * snd d) \<and>
            cellOf B (row + int i * fst d) (col + int i * snd d) = Some (opponent player)"
    for d j
  proof -
    from run j have on: "onBoard N (row + int j * fst d) (col + int j * snd d)"
      and opp: "cellOf B (row + int j * fst d) (col + int j * snd d) = Some (opponent player)"
      by auto
    from directions_nonzero [OF d] j
    have no: "\<not> (row + int j * fst d = row \<and> col + int j * snd d = col)" by auto
    show ?thesis
    proof
      assume "capturesDir B N player row col d"
      from capturesDir_flippedBy [OF this run j] d cells [OF on]
      show "cellOf B' (row + int j * fst d) (col + int j * snd d) = Some player" by auto
    next
      assume now: "cellOf B' (row + int j * fst d) (col + int j * snd d) = Some player"
      have "\<exists>d' \<in> set directions.
              flippedBy B N player row col d' (row + int j * fst d) (col + int j * snd d)"
      proof (rule ccontr)
        assume "\<not> ?thesis"
        with cells [OF on] no
        have "cellOf B' (row + int j * fst d) (col + int j * snd d) = Some (opponent player)"
          by (simp add: opp)
        with now show False by simp
      qed
      then obtain d' where "d' \<in> set directions"
        "flippedBy B N player row col d' (row + int j * fst d) (col + int j * snd d)" by blast
      from flippedBy_same_direction [OF this(2) d this(1) j]
      show "capturesDir B N player row col d" by simp
    qed
  qed
  have ray: "\<exists>d \<in> set directions. \<exists>j\<ge>1. r = row + int j * fst d \<and> c = col + int j * snd d \<and>
            (\<forall>i \<in> {1..j}. cellOf B (row + int i * fst d) (col + int i * snd d) \<noteq> None)"
    if on: "onBoard N r c" and was: "cellOf B r c = Some (opponent player)"
      and now: "cellOf B' r c = Some player" for r c
  proof -
    have "\<exists>d \<in> set directions. flippedBy B N player row col d r c"
    proof (rule ccontr)
      assume no: "\<not> ?thesis"
      from makeMove_valid_cells [OF wf ob valid] have "cellOf B row col = None" by simp
      with was have "\<not> (r = row \<and> c = col)" by auto
      with cells [OF on] no was now show False by simp
    qed
    then obtain d where d: "d \<in> set directions" and f: "flippedBy B N player row col d r c"
      by blast
    from flippedBy_between [OF f] obtain j where
      "1 \<le> j" "r = row + int j * fst d" "c = col + int j * snd d"
      "\<forall>i \<in> {1..j}. cellOf B (row + int i * fst d) (col + int i * snd d) = Some (opponent player)"
      by blast
    then have "1 \<le> j \<and> r = row + int j * fst d \<and> c = col + int j * snd d \<and>
      (\<forall>i \<in> {1..j}. cellOf B (row + int i * fst d) (col + int i * snd d) \<noteq> None)"
      by simp
    with d show ?thesis by blast
  qed
  have frame: "(r = row \<and> c = col) \<or>
         (cellOf B r c = Some (opponent player) \<and> cellOf B' r c = Some player)"
    if on: "onBoard N r c" and ch: "cellOf B' r c \<noteq> cellOf B r c" for r c
  proof (cases "r = row \<and> c = col")
    case True
    then show ?thesis by simp
  next
    case False
    with cells [OF on] ch
    obtain d where "d \<in> set directions" "flippedBy B N player row col d r c"
      by (auto split: if_splits)
    with flippedBy_opponent [OF this(2)] cells [OF on] show ?thesis by auto
  qed
  from mm wf' origin dirs ray frame cells show ?thesis by blast
qed

theorem makeMove_flips_witness:
  "wfBoard start4 4 \<and> onBoard 4 0 1 \<and> isValidMove start4 0 1 Black 4 = Some (Inr True) \<and>
   (\<exists>B'. makeMove start4 0 1 Black 4 = Some (Inr B') \<and> cellOf B' 0 1 = Some Black \<and>
      (1, 0) \<in> set directions \<and> onBoard 4 1 1 \<and> cellOf start4 1 1 = Some (opponent Black) \<and>
      cellOf B' 1 1 = Some Black \<and> capturesDir start4 4 Black 0 1 (1, 0) \<and>
      cellOf B' 2 2 = cellOf start4 2 2)"
proof -
  have ob: "onBoard 4 0 1" "onBoard 4 1 1" by (simp_all add: onBoard_def)
  from makeMove_flips [OF wfBoard_start4 ob(1) makeMove_start4(1)] obtain B' where
    mm: "makeMove start4 0 1 Black (int 4) = Some (Inr B')"
    and o: "cellOf B' 0 1 = Some Black"
    and dirs: "\<forall>d \<in> set directions. \<forall>j\<ge>1.
         (\<forall>i \<in> {1..j}. onBoard 4 (0 + int i * fst d) (1 + int i * snd d) \<and>
            cellOf start4 (0 + int i * fst d) (1 + int i * snd d) = Some (opponent Black)) \<longrightarrow>
         (cellOf B' (0 + int j * fst d) (1 + int j * snd d) = Some Black \<longleftrightarrow>
            capturesDir start4 4 Black 0 1 d)"
    by auto
  have d: "(1, 0) \<in> set directions" by (simp add: directions_def)
  have c: "cellOf start4 1 1 = Some (opponent Black)" by (simp add: cellOf_def start4_def)
  from mm have mm4: "makeMove start4 0 1 Black 4 = Some (Inr B')" by simp
  from mm4 makeMove_start4(2) have B': "B' = [[None, Some Black, None, None],
                [None, Some Black, Some Black, None],
                [None, Some Black, Some White, None],
                [None, None, None, None]]" by simp
  have n: "cellOf B' 1 1 = Some Black" "cellOf B' 2 2 = cellOf start4 2 2"
    by (simp_all add: B' cellOf_def start4_def)
  from dirs [rule_format, OF d, of 1] ob(2) c n(1)
  have "capturesDir start4 4 Black 0 1 (1, 0)" by simp
  with wfBoard_start4 ob makeMove_start4(1) mm4 o d c n show ?thesis by simp
qed

section \<open>makeMove adds exactly one occupied cell\<close>

lemma filter_count_same:
  assumes "length ys = length xs" and "\<forall>i < length xs. P (ys ! i) = P (xs ! i)"
  shows "length (filter P ys) = length (filter P xs)"
proof -
  have "{i. i < length ys \<and> P (ys ! i)} = {i. i < length xs \<and> P (xs ! i)}"
    using assms by auto
  then show ?thesis by (simp add: length_filter_conv_card)
qed

lemma filter_count_one_less:
  assumes len: "length ys = length xs" and i0: "i0 < length xs"
    and at0: "P (xs ! i0)" "\<not> P (ys ! i0)"
    and rest: "\<forall>i < length xs. i \<noteq> i0 \<longrightarrow> P (ys ! i) = P (xs ! i)"
  shows "length (filter P ys) + 1 = length (filter P xs)"
proof -
  have "{i. i < length xs \<and> P (xs ! i)} = insert i0 {i. i < length ys \<and> P (ys ! i)}"
    using assms by auto
  moreover have "i0 \<notin> {i. i < length ys \<and> P (ys ! i)}" using at0 by simp
  moreover have "finite {i. i < length ys \<and> P (ys ! i)}" by simp
  ultimately show ?thesis by (simp add: length_filter_conv_card)
qed

lemma cellCount_sum:
  "cellCount v B = (\<Sum>i < length B. length (filter (\<lambda>x. x = v) (B ! i)))"
proof -
  have "cellCount v B = sum_list (map (\<lambda>xs. length (filter (\<lambda>x. x = v) xs)) B)"
    by (simp add: cellCount_def filter_concat length_concat comp_def)
  also have "\<dots> = (\<Sum>i < length B. length (filter (\<lambda>x. x = v) (B ! i)))"
    by (simp add: sum_list_sum_nth atLeast0LessThan)
  finally show ?thesis .
qed

lemma cellCount_None_one_less:
  assumes wf: "wfBoard B N" and wf': "wfBoard B' N" and ob: "onBoard N row col"
    and emp: "cellOf B row col = None"
    and cells: "\<And>r c. onBoard N r c \<Longrightarrow>
        (cellOf B' r c = None) = (cellOf B r c = None \<and> \<not> (r = row \<and> c = col))"
  shows "cellCount None B' + 1 = cellCount None B"
proof -
  define f where "f X i = length (filter (\<lambda>x. x = None) (X ! i))" for X :: Board and i
  have len: "length B = N" "length B' = N" using wf wf' by (simp_all add: wfBoard_def)
  have rl: "length (B ! i) = N" "length (B' ! i) = N" if "i < N" for i
    using wf wf' that by (simp_all add: wfBoard_def)
  have r0: "nat row < N" and c0: "nat col < N" using ob by (auto simp add: onBoard_def)
  have cell: "(B' ! i ! j = None) = (B ! i ! j = None \<and> \<not> (i = nat row \<and> j = nat col))"
    if "i < N" "j < N" for i j
  proof -
    have "onBoard N (int i) (int j)" using that by (simp add: onBoard_def)
    from cells [OF this] ob show ?thesis by (auto simp add: cellOf_def onBoard_def)
  qed
  have other: "f B' i = f B i" if "i < N" "i \<noteq> nat row" for i
    unfolding f_def
    by (rule filter_count_same) (use that rl cell in auto)
  have this_row: "f B' (nat row) + 1 = f B (nat row)"
    unfolding f_def
  proof (rule filter_count_one_less [where ?i0.0 = "nat col"])
    show "length (B' ! nat row) = length (B ! nat row)" using rl r0 by simp
    show "nat col < length (B ! nat row)" using rl r0 c0 by simp
    show "B ! nat row ! nat col = None" using emp by (simp add: cellOf_def)
    show "B' ! nat row ! nat col \<noteq> None" using cell [OF r0 c0] by simp
    show "\<forall>i<length (B ! nat row). i \<noteq> nat col \<longrightarrow>
            (B' ! nat row ! i = None) = (B ! nat row ! i = None)"
      using cell [OF r0] rl r0 by simp
  qed
  have "(\<Sum>i < N. f B' i) + 1 = (\<Sum>i < N. f B i)"
  proof -
    have fin: "finite {..<N}" and mem: "nat row \<in> {..<N}" using r0 by simp_all
    have "(\<Sum>i < N. f B' i) = f B' (nat row) + (\<Sum>i \<in> {..<N} - {nat row}. f B' i)"
      by (rule sum.remove [OF fin mem])
    moreover have "(\<Sum>i < N. f B i) = f B (nat row) + (\<Sum>i \<in> {..<N} - {nat row}. f B i)"
      by (rule sum.remove [OF fin mem])
    moreover have "(\<Sum>i \<in> {..<N} - {nat row}. f B' i) = (\<Sum>i \<in> {..<N} - {nat row}. f B i)"
      by (rule sum.cong) (use other in auto)
    ultimately show ?thesis using this_row by simp
  qed
  then show ?thesis by (simp add: cellCount_sum len f_def)
qed

text \<open>
  Claim C10. For a legal move on a well-formed board, every cell occupied before the
  move is occupied after it, the only cell that goes from empty to occupied is the move
  cell, and the number of occupied cells (black plus white) grows by exactly one.
\<close>

theorem makeMove_occupancy:
  "wfBoard B N \<Longrightarrow> onBoard N row col \<Longrightarrow>
   isValidMove B row col player (int N) = Some (Inr True) \<Longrightarrow>
   (\<exists>B'. makeMove B row col player (int N) = Some (Inr B') \<and> wfBoard B' N \<and>
      (\<forall>r c. onBoard N r c \<longrightarrow> cellOf B r c \<noteq> None \<longrightarrow> cellOf B' r c \<noteq> None) \<and>
      (\<forall>r c. onBoard N r c \<longrightarrow> cellOf B r c = None \<longrightarrow> cellOf B' r c \<noteq> None \<longrightarrow>
         r = row \<and> c = col) \<and>
      cellOf B row col = None \<and> cellOf B' row col \<noteq> None \<and>
      cellCount (Some Black) B' + cellCount (Some White) B' =
        cellCount (Some Black) B + cellCount (Some White) B + 1)"
proof -
  assume wf: "wfBoard B N" and ob: "onBoard N row col"
    and valid: "isValidMove B row col player (int N) = Some (Inr True)"
  from makeMove_valid_cells [OF wf ob valid] obtain B' where
    emp: "cellOf B row col = None"
    and mm: "makeMove B row col player (int N) = Some (Inr B')" and wf': "wfBoard B' N"
    and cells: "\<And>r c. onBoard N r c \<Longrightarrow>
         cellOf B' r c =
           (if (r = row \<and> c = col) \<or>
               (\<exists>d \<in> set directions. flippedBy B N player row col d r c)
            then Some player else cellOf B r c)"
    by blast
  have none: "(cellOf B' r c = None) = (cellOf B r c = None \<and> \<not> (r = row \<and> c = col))"
    if on: "onBoard N r c" for r c
    using cells [OF on] flippedBy_opponent [of B N player row col _ r c] by auto
  have cnt: "cellCount None B' + 1 = cellCount None B"
    by (rule cellCount_None_one_less [OF wf wf' ob emp none])
  have "cellCount (Some Black) B + cellCount (Some White) B + cellCount None B = N * N"
    "cellCount (Some Black) B' + cellCount (Some White) B' + cellCount None B' = N * N"
    using cellCount_total [of B] cellCount_total [of B']
      length_concat_wfBoard [OF wf] length_concat_wfBoard [OF wf'] by simp_all
  with cnt have total: "cellCount (Some Black) B' + cellCount (Some White) B' =
        cellCount (Some Black) B + cellCount (Some White) B + 1" by linarith
  have keep: "cellOf B' r c \<noteq> None" if "onBoard N r c" "cellOf B r c \<noteq> None" for r c
    using none [OF that(1)] that(2) by simp
  have fresh: "r = row \<and> c = col"
    if "onBoard N r c" "cellOf B r c = None" "cellOf B' r c \<noteq> None" for r c
    using none [OF that(1)] that(2,3) by simp
  have origin: "cellOf B' row col \<noteq> None" using none [OF ob] by simp
  from mm wf' keep fresh emp origin total show ?thesis by blast
qed

theorem makeMove_occupancy_witness:
  "wfBoard start4 4 \<and> onBoard 4 0 1 \<and> isValidMove start4 0 1 Black 4 = Some (Inr True) \<and>
   (\<exists>B'. makeMove start4 0 1 Black 4 = Some (Inr B') \<and>
      onBoard 4 1 1 \<and> cellOf start4 1 1 \<noteq> None \<and> cellOf B' 1 1 \<noteq> None \<and>
      cellOf start4 0 1 = None \<and> cellOf B' 0 1 \<noteq> None \<and>
      cellCount (Some Black) B' + cellCount (Some White) B' = 5)"
proof -
  have ob: "onBoard 4 0 1" "onBoard 4 1 1" by (simp_all add: onBoard_def)
  have c4: "cellCount (Some Black) start4 + cellCount (Some White) start4 = 4"
    "cellOf start4 1 1 \<noteq> None"
    by (simp_all add: cellCount_def start4_def cellOf_def)
  from makeMove_occupancy [OF wfBoard_start4 ob(1) makeMove_start4(1)] ob(2) c4
  show ?thesis using wfBoard_start4 ob makeMove_start4(1) by auto
qed

section \<open>Coordinates off the board\<close>

text \<open>
  Claim C7, as stated, fails: a row index outside the board makes \<^verbatim>\<open>board[row]\<close>
  undefined, and both \<open>isValidMove\<close> and \<open>makeMove\<close> throw a TypeError.
\<close>

theorem out_of_range_row_counterexample:
  "isValidMove start4 (- 1) 0 Black 4 = Some (Inl TypeError) \<and>
   makeMove start4 (- 1) 0 Black 4 = Some (Inl TypeError) \<and>
   isValidMove start4 4 0 Black 4 = Some (Inl TypeError) \<and>
   makeMove start4 4 0 Black 4 = Some (Inl TypeError)"
  by code_simp

text \<open>
  Claim C7, amended. On a well-formed board of side \<open>N\<close>, for every player and every
  integer coordinate pair whose row lies in \<open>[0, N)\<close>, \<open>isValidMove\<close> and \<open>makeMove\<close>
  raise nothing: \<open>isValidMove\<close> returns false when the column is out of range, and
  \<open>makeMove\<close> returns the board itself whenever \<open>isValidMove\<close> returns false. With a
  row outside \<open>[0, N)\<close> both throw a TypeError. \<open>getValidMoves\<close> and \<open>countPieces\<close>
  raise nothing on a well-formed board.
\<close>

theorem engine_defined_for_row_on_board:
  "wfBoard B N \<Longrightarrow>
   (0 \<le> row \<and> row < int N \<longrightarrow>
      (\<exists>v B'. isValidMove B row col player (int N) = Some (Inr v) \<and>
         makeMove B row col player (int N) = Some (Inr B') \<and>
         (\<not> (0 \<le> col \<and> col < int N) \<longrightarrow> \<not> v) \<and>
         (\<not> v \<longrightarrow> B' = B))) \<and>
   (\<not> (0 \<le> row \<and> row < int N) \<longrightarrow>
      isValidMove B row col player (int N) = Some (Inl TypeError) \<and>
      makeMove B row col player (int N) = Some (Inl TypeError)) \<and>
   (\<exists>ms. getValidMoves B player (int N) = Some (Inr ms)) \<and>
   (\<exists>bw. countPieces B (int N) = Inr bw)"
proof (intro conjI impI)
  assume wf: "wfBoard B N" and row: "0 \<le> row \<and> row < int N"
  show "\<exists>v B'. isValidMove B row col player (int N) = Some (Inr v) \<and>
         makeMove B row col player (int N) = Some (Inr B') \<and>
         (\<not> (0 \<le> col \<and> col < int N) \<longrightarrow> \<not> v) \<and> (\<not> v \<longrightarrow> B' = B)"
  proof (cases "0 \<le> col \<and> col < int N")
    case False
    with wf row have "isValidMove B row col player (int N) = Some (Inr False)"
      by (simp add: isValidMove_col_off)
    then have "isValidMove B row col player (int N) = Some (Inr False) \<and>
         makeMove B row col player (int N) = Some (Inr B) \<and>
         (\<not> (0 \<le> col \<and> col < int N) \<longrightarrow> \<not> False) \<and> (\<not> False \<longrightarrow> B = B)"
      by (simp add: makeMove_def)
    then show ?thesis by blast
  next
    case True
    with row have ob: "onBoard N row col" by (simp add: onBoard_def)
    show ?thesis
    proof (cases "legalMove B N player row col")
      case False
      with isValidMove_legalMove [OF wf ob, of player] makeMove_illegal [OF wf ob False]
      have "isValidMove B row col player (int N) = Some (Inr False) \<and>
         makeMove B row col player (int N) = Some (Inr B) \<and>
         (\<not> (0 \<le> col \<and> col < int N) \<longrightarrow> \<not> False) \<and> (\<not> False \<longrightarrow> B = B)" by simp
      then show ?thesis by blast
    next
      case legal: True
      from makeMove_cells [OF wf ob legal] obtain B' where
        "makeMove B row col player (int N) = Some (Inr B')" by blast
      with isValidMove_legalMove [OF wf ob, of player] legal True
      have "isValidMove B row col player (int N) = Some (Inr True) \<and>
         makeMove B row col player (int N) = Some (Inr B') \<and>
         (\<not> (0 \<le> col \<and> col < int N) \<longrightarrow> \<not> True) \<and> (\<not> True \<longrightarrow> B' = B)" by simp
      then show ?thesis by blast
    qed
  qed
next
  assume wf: "wfBoard B N" and "\<not> (0 \<le> row \<and> row < int N)"
  then show "isValidMove B row col player (int N) = Some (Inl TypeError)"
    "makeMove B row col player (int N) = Some (Inl TypeError)"
    by (simp_all add: isValidMove_row_off makeMove_def)
next
  assume wf: "wfBoard B N"
  then show "\<exists>ms. getValidMoves B player (int N) = Some (Inr ms)"
    by (simp add: getValidMoves_filter)
  from wf show "\<exists>bw. countPieces B (int N) = Inr bw"
    by (simp add: countPieces_cellCount)
qed

theorem engine_defined_for_row_on_board_witness:
  "wfBoard start4 4 \<and> (0::int) \<le> 0 \<and> (0::int) < 4 \<and> \<not> (0 \<le> (7::int) \<and> (7::int) < 4) \<and>
   isValidMove start4 0 7 Black 4 = Some (Inr False) \<and>
   makeMove start4 0 7 Black 4 = Some (Inr start4) \<and>
   \<not> (0 \<le> (- 1::int) \<and> (- 1::int) < 4) \<and>
   isValidMove start4 (- 1) 0 Black 4 = Some (Inl TypeError)"
proof -
  from engine_defined_for_row_on_board [OF wfBoard_start4, of 0 7 Black]
  have a: "isValidMove start4 0 7 Black 4 = Some (Inr False) \<and>
           makeMove start4 0 7 Black 4 = Some (Inr start4)"
    by auto
  from engine_defined_for_row_on_board [OF wfBoard_start4, of "- 1" 0 Black]
  have b: "isValidMove start4 (- 1) 0 Black 4 = Some (Inl TypeError)"
    by simp
  from a b wfBoard_start4 show ?thesis by simp
qed

section \<open>No write falls outside the rows\<close>

lemma at_Val_cellValid: "at B r c = Inr (Val v) \<Longrightarrow> cellValid B r c"
  by (auto simp add: at_def cellValid_def Let_def split: if_splits)

lemma setCell_cellValid:
  assumes "cellValid B r c"
  shows "\<exists>B'. setCell B r c v = Inr B' \<and> (\<forall>r' c'. cellValid B' r' c' = cellValid B r' c')"
proof -
  define B' where "B' = B[nat r := (B ! nat r)[nat c := v]]"
  have "setCell B r c v = Inr B'"
    using assms by (simp add: setCell_def cellValid_def Let_def B'_def)
  moreover have "length (B' ! i) = length (B ! i)" if "i < length B" for i
    using that by (cases "i = nat r") (simp_all add: B'_def)
  then have "cellValid B' r' c' = cellValid B r' c'" for r' c'
    by (auto simp add: cellValid_def B'_def nat_less_iff)
  ultimately show ?thesis by blast
qed

lemma flipAll_cellValid:
  "(\<forall>rc \<in> set ps. cellValid B (fst rc) (snd rc)) \<Longrightarrow> \<exists>B'. flipAll B ps p = Inr B'"
proof (induction ps arbitrary: B)
  case Nil
  then show ?case by simp
next
  case (Cons q ps)
  obtain fr fc where q: "q = (fr, fc)" by (cases q)
  from Cons.prems have "cellValid B fr fc" by (simp add: q)
  from setCell_cellValid [OF this, of "Some p"] obtain B1 where
    B1: "setCell B fr fc (Some p) = Inr B1" "\<forall>r' c'. cellValid B1 r' c' = cellValid B r' c'"
    by blast
  with Cons.prems have "\<forall>rc \<in> set ps. cellValid B1 (fst rc) (snd rc)" by simp
  from Cons.IH [OF this] B1(1) show ?case by (simp add: q thenE_def)
qed

lemma scanFlip_not_SparseWrite:
  assumes run: "scanFlip B0 bs0 p0 dr0 dc0 r0 c0 tf0 = Some y0"
    and tf0: "\<forall>rc \<in> set tf0. cellValid B0 (fst rc) (snd rc)"
  shows "y0 \<noteq> Inl SparseWrite"
proof -
  have "(\<forall>rc \<in> set tf0. cellValid B0 (fst rc) (snd rc)) \<longrightarrow> y0 \<noteq> Inl SparseWrite"
  proof (rule scanFlip.raw_induct [where P = "\<lambda>B bs p dr dc r c tf y.
            (\<forall>rc \<in> set tf. cellValid B (fst rc) (snd rc)) \<longrightarrow> y \<noteq> Inl SparseWrite", OF _ run])
    fix f :: "Board \<Rightarrow> int \<Rightarrow> Player \<Rightarrow> int \<Rightarrow> int \<Rightarrow> int \<Rightarrow> int \<Rightarrow> (int \<times> int) list
        \<Rightarrow> (error + Board) option"
      and B bs p dr dc r c tf y
    assume ih: "\<And>B bs p dr dc r c tf y. f B bs p dr dc r c tf = Some y \<Longrightarrow>
            (\<forall>rc \<in> set tf. cellValid B (fst rc) (snd rc)) \<longrightarrow> y \<noteq> Inl SparseWrite"
    assume body: "(if 0 \<le> r \<and> r < bs \<and> 0 \<le> c \<and> c < bs
      then case at B r c of Inl e \<Rightarrow> Some (Inl e)
           | Inr v \<Rightarrow>
               if v = Val (Some (opponent p))
               then f B bs p dr dc (r + dr) (c + dc) (tf @ [(r, c)])
               else if v = Val (Some p) \<and> 0 < length tf
                    then Some (flipAll B tf p)
                    else Some (Inr B)
      else Some (Inr B)) = Some y"
    show "(\<forall>rc \<in> set tf. cellValid B (fst rc) (snd rc)) \<longrightarrow> y \<noteq> Inl SparseWrite"
    proof
      assume tf: "\<forall>rc \<in> set tf. cellValid B (fst rc) (snd rc)"
      show "y \<noteq> Inl SparseWrite"
      proof (cases "0 \<le> r \<and> r < bs \<and> 0 \<le> c \<and> c < bs")
        case False
        with body show ?thesis by auto
      next
        case inb: True
        show ?thesis
        proof (cases "at B r c")
          case (Inl e)
          then have "e = TypeError" by (auto simp add: at_def Let_def split: if_splits)
          with inb Inl body show ?thesis by auto
        next
          case (Inr v)
          consider (opp) "v = Val (Some (opponent p))"
            | (own) "v \<noteq> Val (Some (opponent p))" "v = Val (Some p) \<and> 0 < length tf"
            | (other) "v \<noteq> Val (Some (opponent p))" "\<not> (v = Val (Some p) \<and> 0 < length tf)"
            by blast
          then show ?thesis
          proof cases
            case opp
            with Inr have "cellValid B r c" by (simp add: at_Val_cellValid)
            with tf have tf': "\<forall>rc \<in> set (tf @ [(r, c)]). cellValid B (fst rc) (snd rc)"
              by simp
            from inb Inr opp body
            have "f B bs p dr dc (r + dr) (c + dc) (tf @ [(r, c)]) = Some y" by simp
            from ih [OF this] tf' show ?thesis by blast
          next
            case own
            from flipAll_cellValid [OF tf, of p] obtain B' where "flipAll B tf p = Inr B'"
              by blast
            with inb Inr own body show ?thesis by auto
          next
            case other
            with inb Inr body show ?thesis by auto
          qed
        qed
      qed
    qed
  qed
  with tf0 show ?thesis by blast
qed

lemma flipDirs_not_SparseWrite: "flipDirs B row col p bs ds \<noteq> Some (Inl SparseWrite)"
proof (induction ds arbitrary: B)
  case Nil
  then show ?case by simp
next
  case (Cons d ds)
  obtain dr dc where d: "d = (dr, dc)" by (cases d)
  show ?case
  proof (cases "scanFlip B bs p dr dc (row + dr) (col + dc) []")
    case None
    then show ?thesis by (simp add: d)
  next
    case (Some y)
    from scanFlip_not_SparseWrite [OF Some] have "y \<noteq> Inl SparseWrite" by simp
    with Some Cons.IH show ?thesis by (cases y) (auto simp add: d)
  qed
qed

lemma isValidMove_True_cellValid:
  "isValidMove B row col p bs = Some (Inr True) \<Longrightarrow> cellValid B row col"
  by (cases "at B row col")
    (auto simp add: isValidMove_def at_Val_cellValid split: if_splits)

lemma isValidMove_not_SparseWrite: "isValidMove B row col p bs \<noteq> Some (Inl SparseWrite)"
proof -
  have sv: "y0 \<noteq> Inl SparseWrite" if run: "scanValid B0 bs0 p0 dr0 dc0 r0 c0 h0 = Some y0"
    for B0 bs0 p0 dr0 dc0 r0 c0 h0 y0
  proof (rule scanValid.raw_induct [where P = "\<lambda>B bs p dr dc r c h y. y \<noteq> Inl SparseWrite",
        OF _ run])
    fix f :: "Board \<Rightarrow> int \<Rightarrow> Player \<Rightarrow> int \<Rightarrow> int \<Rightarrow> int \<Rightarrow> int \<Rightarrow> bool
        \<Rightarrow> (error + bool) option"
      and B bs p dr dc r c h y
    assume ih: "\<And>B bs p dr dc r c h y. f B bs p dr dc r c h = Some y \<Longrightarrow> y \<noteq> Inl SparseWrite"
    assume body: "(if 0 \<le> r \<and> r < bs \<and> 0 \<le> c \<and> c < bs
      then case at B r c of Inl e \<Rightarrow> Some (Inl e)
           | Inr v \<Rightarrow>
               if v = Val (Some (opponent p))
               then f B bs p dr dc (r + dr) (c + dc) True
               else if v = Val (Some p) \<and> h then Some (Inr True)
                    else Some (Inr False)
      else Some (Inr False)) = Some y"
    have "e = TypeError" if "at B r c = Inl e" for e
      using that by (auto simp add: at_def Let_def split: if_splits)
    with body ih show "y \<noteq> Inl SparseWrite"
      by (auto split: if_splits sum.splits)
  qed
  have vd: "validDirs B row col p bs ds \<noteq> Some (Inl SparseWrite)" for ds
  proof (induction ds)
    case Nil
    then show ?case by simp
  next
    case (Cons d ds)
    obtain dr dc where d: "d = (dr, dc)" by (cases d)
    show ?case
      using Cons sv [of B bs p dr dc "row + dr" "col + dc" False]
      by (auto simp add: d split: option.splits sum.splits)
  qed
  have "e = TypeError" if "at B row col = Inl e" for e
    using that by (auto simp add: at_def Let_def split: if_splits)
  with vd show ?thesis by (auto simp add: isValidMove_def split: sum.splits)
qed

lemma makeMove_not_SparseWrite: "makeMove B row col p bs \<noteq> Some (Inl SparseWrite)"
proof (cases "isValidMove B row col p bs = Some (Inr True)")
  case True
  from setCell_cellValid [OF isValidMove_True_cellValid [OF True], of "Some p"] obtain B1 where
    "setCell B row col (Some p) = Inr B1" by blast
  with True flipDirs_not_SparseWrite [of B1 row col p bs directions] show ?thesis
    by (simp add: makeMove_def)
next
  case False
  with isValidMove_not_SparseWrite [of B row col p bs] show ?thesis
    by (auto simp add: makeMove_def split: option.splits sum.splits)
qed

section \<open>The turn policy of handleCellClick\<close>

text \<open>
  Claim C5. When the game is not over and the current player clicks a legal cell of a
  well-formed board, \<open>handleCellClick\<close> stores the board returned by \<open>makeMove\<close> and:
  if the other player has a legal move on it, the turn passes to them; else if the
  current player has one, they keep the turn; else the game is over and the winner is the
  player with strictly more pieces by \<open>countPieces\<close>, or a tie on equal counts.
\<close>

theorem handleCellClick_policy:
  assumes wf: "wfBoard (board st) N" and ob: "onBoard N row col" and go: "\<not> gameOver st"
    and valid: "isValidMove (board st) row col (currentPlayer st) (int N) = Some (Inr True)"
  shows "\<exists>B' st'. makeMove (board st) row col (currentPlayer st) (int N) = Some (Inr B') \<and>
     handleCellClick st (int N) row col = Some (Inr st') \<and> board st' = B' \<and>
     (if hasLegalMove B' N (opponent (currentPlayer st))
      then currentPlayer st' = opponent (currentPlayer st) \<and> \<not> gameOver st' \<and>
           winner st' = winner st
      else if hasLegalMove B' N (currentPlayer st)
      then currentPlayer st' = currentPlayer st \<and> \<not> gameOver st' \<and> winner st' = winner st
      else currentPlayer st' = currentPlayer st \<and> gameOver st' \<and>
           (\<exists>bw. countPieces B' (int N) = Inr bw \<and> winner st' = Some (winnerOf bw)))"
proof -
  from makeMove_valid_cells [OF wf ob valid] obtain B' where
    mm: "makeMove (board st) row col (currentPlayer st) (int N) = Some (Inr B')"
    and wf': "wfBoard B' N" by blast
  from getValidMoves_hasLegalMove [OF wf', of "opponent (currentPlayer st)"] obtain nm where
    nm: "getValidMoves B' (opponent (currentPlayer st)) (int N) = Some (Inr nm)"
        "(0 < length nm) = hasLegalMove B' N (opponent (currentPlayer st))" by blast
  from getValidMoves_hasLegalMove [OF wf', of "currentPlayer st"] obtain cm where
    cm: "getValidMoves B' (currentPlayer st) (int N) = Some (Inr cm)"
        "(0 < length cm) = hasLegalMove B' N (currentPlayer st)" by blast
  obtain b w where bw: "countPieces B' (int N) = Inr (b, w)"
    using countPieces_cellCount [OF wf'] by blast
  define st' where "st' =
    (if 0 < length nm then st\<lparr>board := B', currentPlayer := opponent (currentPlayer st)\<rparr>
     else if 0 < length cm then st\<lparr>board := B'\<rparr>
     else st\<lparr>board := B', gameOver := True, winner := Some (winnerOf (b, w))\<rparr>)"
  have run: "handleCellClick st (int N) row col = Some (Inr st')"
    using go valid mm nm(1) cm(1) bw
    by (simp add: handleCellClick_def Let_def st'_def winnerOf_def)
  have "board st' = B'" by (simp add: st'_def)
  moreover have "if hasLegalMove B' N (opponent (currentPlayer st))
      then currentPlayer st' = opponent (currentPlayer st) \<and> \<not> gameOver st' \<and>
           winner st' = winner st
      else if hasLegalMove B' N (currentPlayer st)
      then currentPlayer st' = currentPlayer st \<and> \<not> gameOver st' \<and> winner st' = winner st
      else currentPlayer st' = currentPlayer st \<and> gameOver st' \<and>
           (\<exists>bw. countPieces B' (int N) = Inr bw \<and> winner st' = Some (winnerOf bw))"
    using nm(2) cm(2) go bw by (simp add: st'_def)
  ultimately show ?thesis using mm run by blast
qed

lemma handleCellClick_examples:
  "makeMove start4 0 1 Black (int 4) =
     Some (Inr [[None, Some Black, None, None],
                [None, Some Black, Some Black, None],
                [None, Some Black, Some White, None],
                [None, None, None, None]])"
  "hasLegalMove [[None, Some Black, None, None],
                [None, Some Black, Some Black, None],
                [None, Some Black, Some White, None],
                [None, None, None, None]] 4 White"
  "isValidMove lastMove3 0 0 Black (int 3) = Some (Inr True)"
  "makeMove lastMove3 0 0 Black (int 3) =
     Some (Inr [[Some Black, Some Black, Some Black],
                [Some Black, Some Black, Some Black],
                [Some Black, Some Black, Some Black]])"
  "\<not> hasLegalMove [[Some Black, Some Black, Some Black],
                [Some Black, Some Black, Some Black],
                [Some Black, Some Black, Some Black]] 3 White"
  "\<not> hasLegalMove [[Some Black, Some Black, Some Black],
                [Some Black, Some Black, Some Black],
                [Some Black, Some Black, Some Black]] 3 Black"
  "countPieces [[Some Black, Some Black, Some Black],
                [Some Black, Some Black, Some Black],
                [Some Black, Some Black, Some Black]] (int 3) = Inr (9, 0)"
  "isValidMove skip4 0 0 Black (int 4) = Some (Inr True)"
  "makeMove skip4 0 0 Black (int 4) =
     Some (Inr [[Some Black, Some Black, Some Black, None],
            [None, None, None, None],
            [Some Black, Some White, None, None],
            [None, None, None, None]])"
  "\<not> hasLegalMove [[Some Black, Some Black, Some Black, None],
            [None, None, None, None],
            [Some Black, Some White, None, None],
            [None, None, None, None]] 4 White"
  "hasLegalMove [[Some Black, Some Black, Some Black, None],
            [None, None, None, None],
            [Some Black, Some White, None, None],
            [None, None, None, None]] 4 Black"
  by code_simp+

theorem handleCellClick_policy_witness:
  "(\<exists>st'. handleCellClick \<lparr>board = start4, currentPlayer = Black, gameOver = False,
                  winner = None\<rparr> 4 0 1 = Some (Inr st') \<and>
          currentPlayer st' = White \<and> \<not> gameOver st' \<and> winner st' = None) \<and>
   (\<exists>st'. handleCellClick \<lparr>board = skip4, currentPlayer = Black, gameOver = False,
                  winner = None\<rparr> 4 0 0 = Some (Inr st') \<and>
          currentPlayer st' = Black \<and> \<not> gameOver st' \<and> winner st' = None) \<and>
   (\<exists>st'. handleCellClick \<lparr>board = lastMove3, currentPlayer = Black, gameOver = False,
                  winner = None\<rparr> 3 0 0 = Some (Inr st') \<and>
          gameOver st' \<and> winner st' = Some (Won Black))"
proof (intro conjI)
  define st where "st = \<lparr>board = start4, currentPlayer = Black, gameOver = False,
                  winner = None\<rparr>"
  have h: "wfBoard (board st) 4" "onBoard 4 0 1" "\<not> gameOver st"
    "isValidMove (board st) 0 1 (currentPlayer st) (int 4) = Some (Inr True)"
    using wfBoard_start4 makeMove_start4(1) by (simp_all add: st_def onBoard_def)
  from handleCellClick_policy [OF h] handleCellClick_examples(1,2)
  have "\<exists>st'. handleCellClick st 4 0 1 = Some (Inr st') \<and>
          currentPlayer st' = White \<and> \<not> gameOver st' \<and> winner st' = None"
    by (auto simp add: st_def)
  then show "\<exists>st'. handleCellClick \<lparr>board = start4, currentPlayer = Black, gameOver = False,
                  winner = None\<rparr> 4 0 1 = Some (Inr st') \<and>
          currentPlayer st' = White \<and> \<not> gameOver st' \<and> winner st' = None"
    by (simp add: st_def)
next
  define st where "st = \<lparr>board = skip4, currentPlayer = Black, gameOver = False,
                  winner = None\<rparr>"
  have h: "wfBoard (board st) 4" "onBoard 4 0 0" "\<not> gameOver st"
    "isValidMove (board st) 0 0 (currentPlayer st) (int 4) = Some (Inr True)"
    using handleCellClick_examples(8) by (simp_all add: st_def onBoard_def wfBoard_def skip4_def)
  from handleCellClick_policy [OF h] handleCellClick_examples(9,10,11)
  have "\<exists>st'. handleCellClick st 4 0 0 = Some (Inr st') \<and>
          currentPlayer st' = Black \<and> \<not> gameOver st' \<and> winner st' = None"
    by (auto simp add: st_def)
  then show "\<exists>st'. handleCellClick \<lparr>board = skip4, currentPlayer = Black, gameOver = False,
                  winner = None\<rparr> 4 0 0 = Some (Inr st') \<and>
          currentPlayer st' = Black \<and> \<not> gameOver st' \<and> winner st' = None"
    by (simp add: st_def)
next
  define st where "st = \<lparr>board = lastMove3, currentPlayer = Black, gameOver = False,
                  winner = None\<rparr>"
  have h: "wfBoard (board st) 3" "onBoard 3 0 0" "\<not> gameOver st"
    "isValidMove (board st) 0 0 (currentPlayer st) (int 3) = Some (Inr True)"
    using handleCellClick_examples(3)
    by (simp_all add: st_def onBoard_def wfBoard_def lastMove3_def)
  from handleCellClick_policy [OF h] handleCellClick_examples(4,5,6,7)
  have "\<exists>st'. handleCellClick st 3 0 0 = Some (Inr st') \<and>
          gameOver st' \<and> winner st' = Some (Won Black)"
    by (auto simp add: st_def winnerOf_def)
  then show "\<exists>st'. handleCellClick \<lparr>board = lastMove3, currentPlayer = Black, gameOver = False,
                  winner = None\<rparr> 3 0 0 = Some (Inr st') \<and>
          gameOver st' \<and> winner st' = Some (Won Black)"
    by (simp add: st_def)
qed

section \<open>makeMove never writes to the arrays of its argument\<close>

lemma frameS_refl: "frameS n s s"
  by (simp add: frameS_def)

lemma frameS_trans: "frameS n s s1 \<Longrightarrow> frameS n s1 s2 \<Longrightarrow> frameS n s s2"
  by (simp add: frameS_def)

lemma freshRef_frameS: "freshRef n s b \<Longrightarrow> frameS n s s' \<Longrightarrow> freshRef n s' b"
  by (simp add: freshRef_def frameS_def)

lemma copyRowsS_eq:
  "(\<forall>a \<in> set as. a < length (rowsS s)) \<Longrightarrow>
   copyRowsS s as =
     (s\<lparr>rowsS := rowsS s @ map (\<lambda>a. rowsS s ! a) as\<rparr>,
      [length (rowsS s)..<length (rowsS s) + length as])"
proof (induction as arbitrary: s)
  case Nil
  then show ?case by simp
next
  case (Cons a as)
  define s1 where "s1 = s\<lparr>rowsS := rowsS s @ [rowsS s ! a]\<rparr>"
  have in1: "\<forall>a \<in> set as. a < length (rowsS s1)" using Cons.prems by (auto simp add: s1_def)
  have same: "map (\<lambda>a. rowsS s1 ! a) as = map (\<lambda>a. rowsS s ! a) as"
    using Cons.prems by (auto simp add: s1_def nth_append)
  have ih: "copyRowsS s1 as =
     (s1\<lparr>rowsS := rowsS s1 @ map (\<lambda>a. rowsS s1 ! a) as\<rparr>,
      [length (rowsS s1)..<length (rowsS s1) + length as])"
    by (rule Cons.IH [OF in1])
  have st: "s1\<lparr>rowsS := rowsS s1 @ map (\<lambda>a. rowsS s1 ! a) as\<rparr> =
            s\<lparr>rowsS := rowsS s @ map (\<lambda>a. rowsS s ! a) (a # as)\<rparr>"
    unfolding same by (simp add: s1_def)
  have l1: "length (rowsS s1) = Suc (length (rowsS s))" by (simp add: s1_def)
  have up: "[length (rowsS s)..<length (rowsS s) + length (a # as)] =
            length (rowsS s) # [Suc (length (rowsS s))..<Suc (length (rowsS s)) + length as]"
    by (subst upt_conv_Cons) simp_all
  have "copyRowsS s (a # as) =
        (case copyRowsS s1 as of (s2, news) \<Rightarrow> (s2, length (rowsS s) # news))"
    by (simp add: s1_def Let_def)
  also have "\<dots> = (s\<lparr>rowsS := rowsS s @ map (\<lambda>a. rowsS s ! a) (a # as)\<rparr>,
      length (rowsS s) # [Suc (length (rowsS s))..<Suc (length (rowsS s)) + length as])"
    unfolding ih st l1 by simp
  finally show ?case unfolding up .
qed

lemma copyBoardS_eq:
  "validRef s b \<Longrightarrow>
   copyBoardS s b =
     (s\<lparr>rowsS := rowsS s @ derefS s b,
        boardsS := boardsS s @ [[length (rowsS s)..<length (rowsS s) + length (boardsS s ! b)]]\<rparr>,
      length (boardsS s))"
  by (simp add: copyBoardS_def copyRowsS_eq validRef_def derefS_def)

lemma setCellS_sim:
  assumes fr: "freshRef n s b"
  shows "case setCellS s b r c v of
           Inl e \<Rightarrow> setCell (derefS s b) r c v = Inl e
         | Inr s' \<Rightarrow> setCell (derefS s b) r c v = Inr (derefS s' b) \<and> frameS n s s'"
proof (cases "0 \<le> r \<and> r < int (length (boardsS s ! b))")
  case False
  then show ?thesis by (auto simp add: setCellS_def setCell_def derefS_def Let_def)
next
  case True
  define outer where "outer = boardsS s ! b"
  define a where "a = outer ! nat r"
  define line where "line = rowsS s ! a"
  have r: "nat r < length outer" using True by (simp add: outer_def nat_less_iff)
  have dline: "derefS s b ! nat r = line" using r by (simp add: derefS_def outer_def a_def line_def)
  show ?thesis
  proof (cases "0 \<le> c \<and> c < int (length line)")
    case False
    with True dline show ?thesis
      by (auto simp add: setCellS_def setCell_def Let_def outer_def a_def line_def derefS_def)
  next
    case c: True
    define s' where "s' = s\<lparr>rowsS := (rowsS s)[a := line[nat c := v]]\<rparr>"
    have run: "setCellS s b r c v = Inr s'"
      using True c by (simp add: setCellS_def Let_def outer_def a_def line_def s'_def)
    have dist: "distinct outer" and rng: "\<forall>x \<in> set outer. n \<le> x \<and> x < length (rowsS s)"
      using fr by (simp_all add: freshRef_def outer_def)
    have a_rng: "n \<le> a" "a < length (rowsS s)" using rng r by (simp_all add: a_def)
    have "derefS s' b = (derefS s b)[nat r := line[nat c := v]]"
    proof (rule nth_equalityI)
      show "length (derefS s' b) = length ((derefS s b)[nat r := line[nat c := v]])"
        by (simp add: derefS_def s'_def)
    next
      fix i assume "i < length (derefS s' b)"
      then have i: "i < length outer" by (simp add: derefS_def s'_def outer_def)
      have "(outer ! i = a) = (i = nat r)"
        using dist i r by (auto simp add: a_def nth_eq_iff_index_eq)
      then show "derefS s' b ! i = (derefS s b)[nat r := line[nat c := v]] ! i"
        using i r a_rng rng
        by (auto simp add: derefS_def s'_def outer_def [symmetric] nth_list_update)
    qed
    then have pure: "setCell (derefS s b) r c v = Inr (derefS s' b)"
      using True c dline by (simp add: setCell_def Let_def derefS_def)
    have "frameS n s s'" using a_rng by (simp add: frameS_def s'_def)
    with run pure show ?thesis by simp
  qed
qed

lemma flipAllS_sim:
  "freshRef n s b \<Longrightarrow>
   (case flipAllS s b ps p of
      Inl e \<Rightarrow> flipAll (derefS s b) ps p = Inl e
    | Inr s' \<Rightarrow> flipAll (derefS s b) ps p = Inr (derefS s' b) \<and> frameS n s s')"
proof (induction ps arbitrary: s)
  case Nil
  then show ?case by (simp add: frameS_refl)
next
  case (Cons q ps)
  obtain fr fc where q: "q = (fr, fc)" by (cases q)
  show ?case
  proof (cases "setCellS s b fr fc (Some p)")
    case (Inl e)
    with setCellS_sim [OF Cons.prems, of fr fc "Some p"] show ?thesis
      by (simp add: q thenE_def)
  next
    case (Inr s1)
    with setCellS_sim [OF Cons.prems, of fr fc "Some p"]
    have pure: "setCell (derefS s b) fr fc (Some p) = Inr (derefS s1 b)" and f1: "frameS n s s1"
      by simp_all
    from Cons.IH [OF freshRef_frameS [OF Cons.prems f1]] frameS_trans [OF f1]
    show ?thesis
      by (auto simp add: q thenE_def Inr pure split: sum.splits)
  qed
qed

lemma scanFlipS_sim:
  assumes nz: "dr \<noteq> 0 \<or> dc \<noteq> 0" and fr: "freshRef n s b"
  shows "simRes n s b (scanFlipS s b (int N) p dr dc r c tf)
           (scanFlip (derefS s b) (int N) p dr dc r c tf)"
proof (induction "stepsLeft N dr dc r c" arbitrary: r c tf rule: less_induct)
  case less
  show ?case
  proof (cases "onBoard N r c")
    case False
    then show ?thesis
      by (subst scanFlipS.simps, subst scanFlip.simps)
        (auto simp add: onBoard_def simRes_def frameS_refl)
  next
    case True
    note ih = less [OF stepsLeft_less [OF True nz]]
    have inb: "r \<ge> 0 \<and> r < int N \<and> c \<ge> 0 \<and> c < int N" using True by (simp add: onBoard_def)
    show ?thesis
    proof (cases "at (derefS s b) r c")
      case (Inl e)
      with inb show ?thesis
        by (subst scanFlipS.simps, subst scanFlip.simps) (simp add: simRes_def)
    next
      case (Inr v)
      consider (opp) "v = Val (Some (opponent p))"
        | (own) "v \<noteq> Val (Some (opponent p))" "v = Val (Some p) \<and> length tf > 0"
        | (other) "v \<noteq> Val (Some (opponent p))" "\<not> (v = Val (Some p) \<and> length tf > 0)"
        by blast
      then show ?thesis
      proof cases
        case opp
        with inb Inr ih [of "tf @ [(r, c)]"] show ?thesis
          by (subst scanFlipS.simps, subst scanFlip.simps) simp
      next
        case own
        with inb Inr flipAllS_sim [OF fr, of tf p] show ?thesis
          by (subst scanFlipS.simps, subst scanFlip.simps)
            (auto simp add: simRes_def split: sum.splits)
      next
        case other
        with inb Inr show ?thesis
          by (subst scanFlipS.simps, subst scanFlip.simps)
            (auto simp add: simRes_def frameS_refl)
      qed
    qed
  qed
qed

lemma flipDirsS_sim:
  "(\<forall>d \<in> set ds. fst d \<noteq> 0 \<or> snd d \<noteq> 0) \<Longrightarrow> freshRef n s b \<Longrightarrow>
   simRes n s b (flipDirsS s b row col p (int N) ds) (flipDirs (derefS s b) row col p (int N) ds)"
proof (induction ds arbitrary: s)
  case Nil
  then show ?case by (simp add: simRes_def frameS_refl)
next
  case (Cons d ds)
  obtain dr dc where d: "d = (dr, dc)" by (cases d)
  from Cons.prems have nz: "dr \<noteq> 0 \<or> dc \<noteq> 0" by (simp add: d)
  note sim = scanFlipS_sim [OF nz Cons.prems(2), of N p "row + dr" "col + dc" "[]"]
  show ?case
  proof (cases "scanFlipS s b (int N) p dr dc (row + dr) (col + dc) []")
    case None
    with sim show ?thesis by (simp add: d simRes_def)
  next
    case (Some x)
    show ?thesis
    proof (cases x)
      case (Inl e)
      with Some sim show ?thesis by (simp add: d simRes_def)
    next
      case (Inr s1)
      with Some sim have pure: "scanFlip (derefS s b) (int N) p dr dc (row + dr) (col + dc) [] =
          Some (Inr (derefS s1 b))" and f1: "frameS n s s1"
        by (simp_all add: simRes_def)
      have "simRes n s1 b (flipDirsS s1 b row col p (int N) ds)
              (flipDirs (derefS s1 b) row col p (int N) ds)"
        using Cons.IH [OF _ freshRef_frameS [OF Cons.prems(2) f1]] Cons.prems(1) by simp
      then have "simRes n s b (flipDirsS s1 b row col p (int N) ds)
              (flipDirs (derefS s1 b) row col p (int N) ds)"
        using frameS_trans [OF f1]
        by (auto simp add: simRes_def split: option.splits sum.splits)
      then show ?thesis by (simp add: d Some Inr pure)
    qed
  qed
qed

lemma map_nth_append_upt: "map (\<lambda>a. (xs @ ys) ! a) [length xs..<length xs + length ys] = ys"
  by (rule nth_equalityI) (simp_all add: nth_append)

lemma makeMoveS_sim:
  assumes vr: "validRef s b" and wf: "wfBoard (derefS s b) N" and ob: "onBoard N row col"
  shows "\<exists>s' b'. makeMoveS s b row col p (int N) = Some (Inr (s', b')) \<and>
     makeMove (derefS s b) row col p (int N) = Some (Inr (derefS s' b')) \<and>
     take (length (rowsS s)) (rowsS s') = rowsS s \<and>
     take (length (boardsS s)) (boardsS s') = boardsS s \<and>
     (isValidMove (derefS s b) row col p (int N) = Some (Inr True) \<longrightarrow>
        freshRef (length (rowsS s)) s' b' \<and> length (boardsS s) \<le> b') \<and>
     (isValidMove (derefS s b) row col p (int N) = Some (Inr False) \<longrightarrow> s' = s \<and> b' = b)"
proof (cases "legalMove (derefS s b) N p row col")
  case False
  with isValidMove_legalMove [OF wf ob, of p]
  have v: "isValidMove (derefS s b) row col p (int N) = Some (Inr False)" by simp
  then have "makeMoveS s b row col p (int N) = Some (Inr (s, b))"
    "makeMove (derefS s b) row col p (int N) = Some (Inr (derefS s b))"
    by (simp_all add: makeMoveS_def makeMove_def)
  with v show ?thesis by simp
next
  case True
  with isValidMove_legalMove [OF wf ob, of p]
  have v: "isValidMove (derefS s b) row col p (int N) = Some (Inr True)" by simp
  define n where "n = length (rowsS s)"
  define nb where "nb = length (boardsS s)"
  define s1 where "s1 = s\<lparr>rowsS := rowsS s @ derefS s b,
        boardsS := boardsS s @ [[n..<n + length (boardsS s ! b)]]\<rparr>"
  have cp: "copyBoardS s b = (s1, nb)"
    using copyBoardS_eq [OF vr] by (simp add: s1_def nb_def n_def)
  have len: "length (derefS s b) = length (boardsS s ! b)" by (simp add: derefS_def)
  have fr1: "freshRef n s1 nb"
    by (auto simp add: freshRef_def s1_def nb_def len n_def)
  have d1: "derefS s1 nb = derefS s b"
    unfolding derefS_def [of s1 nb]
    using map_nth_append_upt [of "rowsS s" "derefS s b"]
    by (simp add: s1_def nb_def n_def len)
  have set_pure: "setCell (derefS s b) row col (Some p) = Inr (putCell (derefS s b) row col (Some p))"
    by (rule setCell_onBoard [OF wf ob])
  from makeMove_cells [OF wf ob True] obtain B' where
    mm: "makeMove (derefS s b) row col p (int N) = Some (Inr B')" by blast
  then have fd: "flipDirs (putCell (derefS s b) row col (Some p)) row col p (int N) directions =
      Some (Inr B')"
    using v set_pure by (simp add: makeMove_def)
  from setCellS_sim [OF fr1, of row col "Some p"] set_pure d1 obtain s2 where
    s2: "setCellS s1 nb row col (Some p) = Inr s2"
    and d2: "derefS s2 nb = putCell (derefS s b) row col (Some p)"
    and f12: "frameS n s1 s2"
    by (cases "setCellS s1 nb row col (Some p)") auto
  have fr2: "freshRef n s2 nb" by (rule freshRef_frameS [OF fr1 f12])
  have nzs: "\<forall>d \<in> set directions. fst d \<noteq> 0 \<or> snd d \<noteq> 0" using directions_nonzero by blast
  from flipDirsS_sim [OF nzs fr2, of row col p N] fd d2 obtain s3 where
    s3: "flipDirsS s2 nb row col p (int N) directions = Some (Inr s3)"
    and d3: "derefS s3 nb = B'"
    and f23: "frameS n s2 s3"
    by (auto simp add: simRes_def split: option.splits sum.splits)
  have f13: "frameS n s1 s3" by (rule frameS_trans [OF f12 f23])
  have fr3: "freshRef n s3 nb" by (rule freshRef_frameS [OF fr2 f23])
  have run: "makeMoveS s b row col p (int N) = Some (Inr (s3, nb))"
    using v cp s2 s3 by (simp add: makeMoveS_def)
  have t1: "take (length (rowsS s)) (rowsS s3) = rowsS s"
    using f13 by (simp add: frameS_def s1_def n_def)
  have t2: "take (length (boardsS s)) (boardsS s3) = boardsS s"
    using f13 by (simp add: frameS_def s1_def)
  from run mm d3 t1 t2 fr3 v show ?thesis by (simp add: n_def nb_def)
qed

text \<open>
  Claim C9. Run on a store, \<open>makeMove\<close> leaves every array that existed before the call
  as it was, so the argument board reads cell for cell as before; it computes the board
  of \<open>makeMove\<close> on values; for a legal move the returned reference and the row arrays
  behind it are newly allocated, and for an illegal one the argument itself is returned
  with the store untouched.
\<close>

theorem makeMove_never_mutates:
  "validRef s b \<Longrightarrow> wfBoard (derefS s b) N \<Longrightarrow> onBoard N row col \<Longrightarrow>
   (\<exists>s' b'. makeMoveS s b row col player (int N) = Some (Inr (s', b')) \<and>
      makeMove (derefS s b) row col player (int N) = Some (Inr (derefS s' b')) \<and>
      derefS s' b = derefS s b \<and>
      (\<forall>a < length (rowsS s). rowsS s' ! a = rowsS s ! a) \<and>
      (\<forall>a < length (boardsS s). boardsS s' ! a = boardsS s ! a) \<and>
      (isValidMove (derefS s b) row col player (int N) = Some (Inr True) \<longrightarrow>
         length (boardsS s) \<le> b' \<and> distinct (boardsS s' ! b') \<and>
         (\<forall>a \<in> set (boardsS s' ! b'). length (rowsS s) \<le> a)) \<and>
      (isValidMove (derefS s b) row col player (int N) = Some (Inr False) \<longrightarrow>
         s' = s \<and> b' = b))"
proof -
  assume vr: "validRef s b" and wf: "wfBoard (derefS s b) N" and ob: "onBoard N row col"
  from makeMoveS_sim [OF vr wf ob, of player] obtain s' b' where
    run: "makeMoveS s b row col player (int N) = Some (Inr (s', b'))"
    and pure: "makeMove (derefS s b) row col player (int N) = Some (Inr (derefS s' b'))"
    and t1: "take (length (rowsS s)) (rowsS s') = rowsS s"
    and t2: "take (length (boardsS s)) (boardsS s') = boardsS s"
    and legal: "isValidMove (derefS s b) row col player (int N) = Some (Inr True) \<longrightarrow>
        freshRef (length (rowsS s)) s' b' \<and> length (boardsS s) \<le> b'"
    and illegal: "isValidMove (derefS s b) row col player (int N) = Some (Inr False) \<longrightarrow>
        s' = s \<and> b' = b"
    by blast
  have rows: "rowsS s' ! a = rowsS s ! a" if "a < length (rowsS s)" for a
  proof -
    have "take (length (rowsS s)) (rowsS s') ! a = rowsS s' ! a" using that by simp
    with t1 show ?thesis by simp
  qed
  have outers: "boardsS s' ! a = boardsS s ! a" if "a < length (boardsS s)" for a
  proof -
    have "take (length (boardsS s)) (boardsS s') ! a = boardsS s' ! a" using that by simp
    with t2 show ?thesis by simp
  qed
  have same: "derefS s' b = derefS s b"
    using vr rows outers by (simp add: derefS_def validRef_def)
  have fresh: "length (boardsS s) \<le> b' \<and> distinct (boardsS s' ! b') \<and>
         (\<forall>a \<in> set (boardsS s' ! b'). length (rowsS s) \<le> a)"
    if "isValidMove (derefS s b) row col player (int N) = Some (Inr True)"
    using legal that by (simp add: freshRef_def)
  from run pure same rows outers fresh illegal show ?thesis by blast
qed

lemma makeMoveS_store4:
  "makeMoveS store4 1 0 1 Black (int 4) =
     Some (Inr (\<lparr>rowsS = start4 @ [[None, Some Black, None, None],
                                   [None, Some Black, Some Black, None],
                                   [None, Some Black, Some White, None],
                                   [None, None, None, None]],
                 boardsS = [[0, 1, 2, 3], [0, 1, 2, 3], [4, 5, 6, 7]]\<rparr>, 2))"
  "derefS store4 1 = start4"
  by code_simp+

theorem makeMove_never_mutates_witness:
  "validRef store4 1 \<and> wfBoard (derefS store4 1) 4 \<and> onBoard 4 0 1 \<and>
   isValidMove (derefS store4 1) 0 1 Black 4 = Some (Inr True) \<and>
   (\<exists>s'. makeMoveS store4 1 0 1 Black 4 = Some (Inr (s', 2)) \<and>
      derefS s' 1 = start4 \<and> derefS s' 0 = start4 \<and> boardsS s' ! 2 = [4, 5, 6, 7])"
proof -
  have vr: "validRef store4 1" by (simp add: validRef_def store4_def start4_def)
  have wf: "wfBoard (derefS store4 1) 4"
    unfolding makeMoveS_store4(2) by (rule wfBoard_start4)
  have ob: "onBoard 4 0 1" by (simp add: onBoard_def)
  have v: "isValidMove (derefS store4 1) 0 1 Black 4 = Some (Inr True)"
    unfolding makeMoveS_store4(2) using makeMove_start4(1) by simp
  have v4: "isValidMove (derefS store4 1) 0 1 Black (int 4) = Some (Inr True)"
    using v by simp
  from makeMove_never_mutates [OF vr wf ob, of Black] makeMoveS_store4(1) obtain s' where
    s': "makeMoveS store4 1 0 1 Black (int 4) = Some (Inr (s', 2))"
    and same: "derefS s' 1 = derefS store4 1"
    and rows: "\<forall>a < length (rowsS store4). rowsS s' ! a = rowsS store4 ! a"
    and outers: "\<forall>a < length (boardsS store4). boardsS s' ! a = boardsS store4 ! a"
    by auto
  from s' makeMoveS_store4(1) have b2: "boardsS s' ! 2 = [4, 5, 6, 7]" by auto
  have "derefS s' 0 = derefS store4 0"
    using rows outers by (simp add: derefS_def store4_def start4_def)
  also have "derefS store4 0 = start4" by (simp add: derefS_def store4_def start4_def)
  finally have d0: "derefS s' 0 = start4" .
  from same have d1: "derefS s' 1 = start4" unfolding makeMoveS_store4(2) .
  from s' have s4: "makeMoveS store4 1 0 1 Black 4 = Some (Inr (s', 2))" by simp
  from s4 d1 d0 b2 have "\<exists>s'. makeMoveS store4 1 0 1 Black 4 = Some (Inr (s', 2)) \<and>
      derefS s' 1 = start4 \<and> derefS s' 0 = start4 \<and> boardsS s' ! 2 = [4, 5, 6, 7]" by blast
  with vr wf ob v show ?thesis by blast
qed

end
